theory Spec2Isabelle
  imports Complex_Main "HOL-Library.AList"
begin

section \<open>The document state and its patches\<close>

text \<open>
  The document state of the editor is a JavaScript \<open>Map<string, GPXFile>\<close>: an insertion
  ordered table from document ids to documents. It is modelled as an association list
  handled with \<open>AList.update\<close> (replace in place, or append a new key) and
  \<open>AList.delete\<close>; the value of a state is its key/value content \<open>map_of\<close>.
\<close>

type_synonym 'f DocumentState = "(string \<times> 'f) list"

text \<open>
  Modelled from the spec: the patches of the Patch Engine (section 4.2; the source hands
  the work to the immer library, whose code is not under src/). A patch operation has a
  kind, a target path and a value. Paths are kept at the granularity of one document: the
  first path component, the document id, which is the only component the source reads
  (\<open>getChangedFileIds\<close>).
\<close>

datatype 'f Patch = Add string 'f | Remove string | Replace string 'f

fun path0 :: "'f Patch \<Rightarrow> string" where
  "path0 (Add k v) = k"
| "path0 (Remove k) = k"
| "path0 (Replace k v) = k"

text \<open>
  Modelled from the spec: \<open>applyPatches\<close> of the Patch Engine. At the granularity of one
  document every operation is defined on every state (setting or deleting a key of a map
  cannot fail), so applying a patch is a total function.
\<close>

fun applyPatch1 :: "'f Patch \<Rightarrow> 'f DocumentState \<Rightarrow> 'f DocumentState" where
  "applyPatch1 (Add k v) S = AList.update k v S"
| "applyPatch1 (Remove k) S = AList.delete k S"
| "applyPatch1 (Replace k v) S = AList.update k v S"

definition applyPatches :: "'f DocumentState \<Rightarrow> 'f Patch list \<Rightarrow> 'f DocumentState" where
  "applyPatches S ps = fold applyPatch1 ps S"

section \<open>The persistent store\<close>

text \<open>
  A Dexie table with integer primary keys is an association list kept in key order, as
  \<open>orderBy(':id').keys()\<close> reads it. \<open>table_put\<close> is \<open>Table.put(value, key)\<close>
  (insert, or overwrite the entry of an existing key), \<open>table_get\<close> is \<open>Table.get(key)\<close>
  (\<open>undefined\<close> is \<open>None\<close>), and the two range deletions are
  \<open>where(':id').above(k).delete()\<close> and \<open>where(':id').belowOrEqual(k).delete()\<close>.
\<close>

type_synonym 'e table = "(int \<times> 'e) list"

fun table_put :: "int \<Rightarrow> 'e \<Rightarrow> 'e table \<Rightarrow> 'e table" where
  "table_put k v [] = [(k, v)]"
| "table_put k v ((k', v') # xs) =
     (if k < k' then (k, v) # (k', v') # xs
      else if k = k' then (k, v) # xs
      else (k', v') # table_put k v xs)"

definition table_get :: "'e table \<Rightarrow> int \<Rightarrow> 'e option" where
  "table_get t k = map_of t k"

definition table_keys :: "'e table \<Rightarrow> int list" where
  "table_keys t = map fst t"

definition delete_above :: "int \<Rightarrow> 'e table \<Rightarrow> 'e table" where
  "delete_above k t = filter (\<lambda>(i, e). \<not> k < i) t"

definition delete_belowOrEqual :: "int \<Rightarrow> 'e table \<Rightarrow> 'e table" where
  "delete_belowOrEqual k t = filter (\<lambda>(i, e). \<not> i \<le> k) t"

record 'f PatchEntry =
  patch :: "'f Patch list"
  inversePatch :: "'f Patch list"
  index :: int

text \<open>
  The state of the module \<open>db.ts\<close>: the documents (the table \<open>db.files\<close>, of which the
  cache \<open>fileState\<close> and the observers \<open>fileObservers\<close> are copies kept by live queries),
  the patch log (the table \<open>db.patches\<close>) and the history cursor (the setting
  \<open>patchIndex\<close>, \<open>-1\<close> until it is first written). A call is modelled at rest: the caches
  and stores hold what the tables held when the call started, and the writes a call issues
  take effect in the order it issues them.
\<close>

record 'f AppState =
  files :: "'f DocumentState"
  patches :: "'f PatchEntry table"
  patchIndex :: int

definition initialState :: "'f AppState" where
  "initialState = \<lparr> files = [], patches = [], patchIndex = - 1 \<rparr>"

text \<open>The store \<open>patchMinMaxIndex\<close>: the bounds \<open>[min, max)\<close> of the keys of the log.\<close>

definition patchMinMaxIndex :: "('f, 'x) AppState_scheme \<Rightarrow> int \<times> int" where
  "patchMinMaxIndex s =
     (let keys = table_keys (patches s)
      in if length keys = 0 then (0, 0) else (keys ! 0, keys ! (length keys - 1) + 1))"

definition canUndo :: "('f, 'x) AppState_scheme \<Rightarrow> bool" where
  "canUndo s = (patchIndex s \<ge> fst (patchMinMaxIndex s))"

definition canRedo :: "('f, 'x) AppState_scheme \<Rightarrow> bool" where
  "canRedo s = (patchIndex s < snd (patchMinMaxIndex s) - 1)"

definition MAX_PATCHES :: int where
  "MAX_PATCHES = 100"

text \<open>
  \<open>storePatches\<close>. The test \<open>get(patchIndex) !== undefined\<close> always holds: the store starts
  at \<open>-1\<close> and a live query never sets it to \<open>undefined\<close>. The bounds \<open>minmax\<close> are read
  from the store right after the deletion of the redo tail is issued, so they are the
  bounds of the log as it was when the call started.
\<close>

definition storePatches ::
  "'f Patch list \<Rightarrow> 'f Patch list \<Rightarrow> ('f, 'x) AppState_scheme \<Rightarrow> ('f, 'x) AppState_scheme" where
  "storePatches p ip s =
     (let t1 = delete_above (patchIndex s) (patches s);
          minmax = patchMinMaxIndex s;
          t2 = (if snd minmax - fst minmax + 1 > MAX_PATCHES
                then delete_belowOrEqual (snd minmax - MAX_PATCHES) t1 else t1);
          index = patchIndex s + 1
      in s\<lparr> patches := table_put index \<lparr> patch = p, inversePatch = ip, index = index \<rparr> t2,
            patchIndex := index \<rparr>)"

text \<open>
  \<open>getChangedFileIds\<close>: the first path component of every operation, each id once, in the
  order of first occurrence (a JavaScript \<open>Set\<close>).
\<close>

definition getChangedFileIds :: "'f Patch list \<Rightarrow> string list" where
  "getChangedFileIds ps = fold (\<lambda>p ids. if path0 p \<in> set ids then ids else ids @ [path0 p]) ps []"

text \<open>
  \<open>commitFileStateChange\<close>: every changed id that the new state has is written
  (\<open>bulkPut\<close>), every other changed id is deleted (\<open>bulkDelete\<close>). The pruning of
  the user's selection (\<open>updateSelection\<close>) is outside the model: the selection is an input
  of each operation.
\<close>

definition commitFileStateChange ::
  "'f DocumentState \<Rightarrow> 'f Patch list \<Rightarrow> ('f, 'x) AppState_scheme \<Rightarrow> ('f, 'x) AppState_scheme" where
  "commitFileStateChange newFileState p s =
     (let changedFileIds = getChangedFileIds p;
          updatedFileIds = filter (\<lambda>id. map_of newFileState id \<noteq> None) changedFileIds;
          deletedFileIds = filter (\<lambda>id. map_of newFileState id = None) changedFileIds;
          put = fold (\<lambda>id fs. case map_of newFileState id of
                                 Some f \<Rightarrow> AList.update id f fs | None \<Rightarrow> fs) updatedFileIds (files s)
      in s\<lparr> files := fold AList.delete deletedFileIds put \<rparr>)"

definition applyPatch :: "'f Patch list \<Rightarrow> ('f, 'x) AppState_scheme \<Rightarrow> ('f, 'x) AppState_scheme" where
  "applyPatch p s = commitFileStateChange (applyPatches (files s) p) p s"

text \<open>
  \<open>dbUtils.undo\<close> and \<open>dbUtils.redo\<close>. Both read the log entry first and do nothing when
  the log has no entry under the key (\<open>if (patch)\<close>).
\<close>

definition undo :: "('f, 'x) AppState_scheme \<Rightarrow> ('f, 'x) AppState_scheme" where
  "undo s =
     (if canUndo s then
        (let index = patchIndex s
         in case table_get (patches s) index of
              Some e \<Rightarrow> (applyPatch (inversePatch e) s)\<lparr> patchIndex := index - 1 \<rparr>
            | None \<Rightarrow> s)
      else s)"

definition redo :: "('f, 'x) AppState_scheme \<Rightarrow> ('f, 'x) AppState_scheme" where
  "redo s =
     (if canRedo s then
        (let index = patchIndex s + 1
         in case table_get (patches s) index of
              Some e \<Rightarrow> (applyPatch (patch e) s)\<lparr> patchIndex := index \<rparr>
            | None \<Rightarrow> s)
      else s)"

text \<open>
  The invariant of the patch log and the cursor (section 3 of the specification): the keys of
  the log are the contiguous range \<open>[min, max)\<close>, the log holds at most \<open>MAX_PATCHES\<close>
  entries, and \<open>min - 1 \<le> cursor \<le> max - 1\<close>.
\<close>

definition history_inv :: "('f, 'x) AppState_scheme \<Rightarrow> bool" where
  "history_inv s =
     (let mn = fst (patchMinMaxIndex s); mx = snd (patchMinMaxIndex s)
      in table_keys (patches s) = [mn..mx - 1] \<and> mx - mn \<le> MAX_PATCHES \<and>
         mn - 1 \<le> patchIndex s \<and> patchIndex s \<le> mx - 1)"

text \<open>
  Two concrete histories: one edit that added the document \<open>gpx-0\<close>, and a full log of
  one hundred (empty) edits with the cursor on the newest.
\<close>

definition oneEdit :: "nat AppState" where
  "oneEdit = \<lparr> files = [(''gpx-0'', 7)],
               patches = [(0, \<lparr> patch = [Add ''gpx-0'' 7], inversePatch = [Remove ''gpx-0''], index = 0 \<rparr>)],
               patchIndex = 0 \<rparr>"

definition fullLog :: "nat AppState" where
  "fullLog = \<lparr> files = [],
               patches = map (\<lambda>i. (i, \<lparr> patch = [], inversePatch = [], index = i \<rparr>)) [0..99],
               patchIndex = 99 \<rparr>"

text \<open>\<open>halfUndone\<close>: the full log after forty-nine undos, the cursor is at 50.\<close>

definition halfUndone :: "nat AppState" where
  "halfUndone = fullLog\<lparr> patchIndex := 50 \<rparr>"

section \<open>The document model\<close>

text \<open>
  Modelled from the spec: the Document Model of sections 3 and 4.1 (the classes
  \<open>GPXFile\<close>, \<open>Track\<close> and \<open>TrackSegment\<close> of the package \<open>gpx\<close>, used by the source
  but not under src/). A document has an id, a name, an ordered sequence of tracks and an
  ordered sequence of waypoints; a track has an optional name and an ordered sequence of
  segments; a segment is an ordered sequence of points. Points and waypoints are kept
  abstract (\<open>'p\<close>, \<open>'w\<close>). Values are immutable, so \<open>clone()\<close> is the identity.
\<close>

record 'p TrackSegment =
  trkpt :: "'p list"

record 'p Track =
  name :: "string option"
  trkseg :: "'p TrackSegment list"

record ('p, 'w) GPXFile =
  data_id :: "string option"
  metadata_name :: "string option"
  trk :: "'p Track list"
  wpt :: "'w list"

text \<open>
  Modelled from the spec: \<open>replaceRange(container, startIndex, endIndex, newItems)\<close> of
  section 4.1 replaces the inclusive index range by the new items; an end below the start
  is a pure insertion at the start; indices out of range are clamped.
\<close>

definition replaceRange :: "int \<Rightarrow> int \<Rightarrow> 'a list \<Rightarrow> 'a list \<Rightarrow> 'a list" where
  "replaceRange startIndex endIndex newItems xs =
     (let n = int (length xs);
          s = max 0 (min startIndex n);
          e = max (s - 1) (min endIndex (n - 1))
      in take (nat s) xs @ newItems @ drop (nat (e + 1)) xs)"

text \<open>
  Reading \<open>xs[i]\<close>: \<open>undefined\<close> out of range. A property read or a method call on
  \<open>undefined\<close> raises a \<open>TypeError\<close>; an operation that can raise returns an option,
  and \<open>None\<close> is the exception.
\<close>

definition nth_opt :: "'a list \<Rightarrow> nat \<Rightarrow> 'a option" where
  "nth_opt xs i = (if i < length xs then Some (xs ! i) else None)"

text \<open>\<open>xs.splice(i, 1)\<close>: removes the element at \<open>i\<close>, if there is one.\<close>

definition splice1 :: "nat \<Rightarrow> 'a list \<Rightarrow> 'a list" where
  "splice1 i xs = take i xs @ drop (Suc i) xs"

definition Track_replaceTrackSegments ::
  "int \<Rightarrow> int \<Rightarrow> 'p TrackSegment list \<Rightarrow> 'p Track \<Rightarrow> 'p Track" where
  "Track_replaceTrackSegments startIndex endIndex segments t =
     t\<lparr> trkseg := replaceRange startIndex endIndex segments (trkseg t) \<rparr>"

definition replaceTracks ::
  "int \<Rightarrow> int \<Rightarrow> 'p Track list \<Rightarrow> ('p, 'w) GPXFile \<Rightarrow> ('p, 'w) GPXFile" where
  "replaceTracks startIndex endIndex tracks f =
     f\<lparr> trk := replaceRange startIndex endIndex tracks (trk f) \<rparr>"

definition replaceTrackSegments ::
  "nat \<Rightarrow> int \<Rightarrow> int \<Rightarrow> 'p TrackSegment list \<Rightarrow> ('p, 'w) GPXFile \<Rightarrow> ('p, 'w) GPXFile option" where
  "replaceTrackSegments trackIndex startIndex endIndex segments f =
     (case nth_opt (trk f) trackIndex of
        None \<Rightarrow> None
      | Some t \<Rightarrow>
          Some (f\<lparr> trk := (trk f)[trackIndex := Track_replaceTrackSegments startIndex endIndex segments t] \<rparr>))"

definition replaceWaypoints ::
  "int \<Rightarrow> int \<Rightarrow> 'w list \<Rightarrow> ('p, 'w) GPXFile \<Rightarrow> ('p, 'w) GPXFile" where
  "replaceWaypoints startIndex endIndex waypoints f =
     f\<lparr> wpt := replaceRange startIndex endIndex waypoints (wpt f) \<rparr>"

definition Track_getNumberOfTrackPoints :: "'p Track \<Rightarrow> nat" where
  "Track_getNumberOfTrackPoints t = sum_list (map (\<lambda>seg. length (trkpt seg)) (trkseg t))"

definition getNumberOfTrackPoints :: "('p, 'w) GPXFile \<Rightarrow> nat" where
  "getNumberOfTrackPoints f = sum_list (map Track_getNumberOfTrackPoints (trk f))"

text \<open>
  Modelled from the spec: \<open>crop(entity, startPointIndex, endPointIndex, selectors)\<close> of
  section 4.1 (class \<open>GPXFile\<close> of the package \<open>gpx\<close>, not under src/) keeps the points
  of the inclusive range, counted over the selected tracks and segments in order, and
  deletes the points outside the range, then the selected segments and then the selected
  tracks that become empty: a segment or a track that lies outside the range, and one
  that the crop leaves without a point. The range is shifted by the number of points of
  each selected entity as the walk goes on; \<open>None\<close> as a selector selects every track, or
  every segment. The method changes the file it is called on; the deletion of a file from
  the map of the documents is the caller's.
\<close>

definition TrackSegment_crop :: "int \<Rightarrow> int \<Rightarrow> 'p TrackSegment \<Rightarrow> 'p TrackSegment" where
  "TrackSegment_crop startIndex endIndex seg =
     seg\<lparr> trkpt := take (nat (endIndex + 1) - nat startIndex) (drop (nat startIndex) (trkpt seg)) \<rparr>"

fun crop_segments ::
  "int \<Rightarrow> int \<Rightarrow> nat list option \<Rightarrow> nat \<Rightarrow> 'p TrackSegment list \<Rightarrow> 'p TrackSegment list" where
  "crop_segments startIndex endIndex segmentIndices segmentIndex [] = []"
| "crop_segments startIndex endIndex segmentIndices segmentIndex (seg # segs) =
     (let n = int (length (trkpt seg))
      in if segmentIndices = None \<or> segmentIndex \<in> set (the segmentIndices) then
           (let rest = crop_segments (startIndex - n) (endIndex - n) segmentIndices (segmentIndex + 1) segs
            in if startIndex \<ge> n \<or> endIndex < 0 then rest
               else if startIndex > 0 \<or> endIndex < n - 1 then
                 (let seg' = TrackSegment_crop (max 0 startIndex) (min (n - 1) endIndex) seg
                  in if trkpt seg' = [] then rest else seg' # rest)
               else seg # rest)
         else seg # crop_segments startIndex endIndex segmentIndices (segmentIndex + 1) segs)"

definition Track_crop :: "int \<Rightarrow> int \<Rightarrow> nat list option \<Rightarrow> 'p Track \<Rightarrow> 'p Track" where
  "Track_crop startIndex endIndex segmentIndices t =
     t\<lparr> trkseg := crop_segments startIndex endIndex segmentIndices 0 (trkseg t) \<rparr>"

fun crop_tracks ::
  "int \<Rightarrow> int \<Rightarrow> nat list option \<Rightarrow> nat list option \<Rightarrow> nat \<Rightarrow> 'p Track list \<Rightarrow> 'p Track list" where
  "crop_tracks startIndex endIndex trackIndices segmentIndices trackIndex [] = []"
| "crop_tracks startIndex endIndex trackIndices segmentIndices trackIndex (t # ts) =
     (let n = int (Track_getNumberOfTrackPoints t)
      in if trackIndices = None \<or> trackIndex \<in> set (the trackIndices) then
           (let rest = crop_tracks (startIndex - n) (endIndex - n) trackIndices segmentIndices (trackIndex + 1) ts
            in if startIndex \<ge> n \<or> endIndex < 0 then rest
               else if startIndex > 0 \<or> endIndex < n - 1 then
                 (let t' = Track_crop (max 0 startIndex) (min (n - 1) endIndex) segmentIndices t
                  in if Track_getNumberOfTrackPoints t' = 0 then rest else t' # rest)
               else t # rest)
         else t # crop_tracks startIndex endIndex trackIndices segmentIndices (trackIndex + 1) ts)"

definition crop ::
  "int \<Rightarrow> int \<Rightarrow> nat list option \<Rightarrow> nat list option \<Rightarrow> ('p, 'w) GPXFile \<Rightarrow> ('p, 'w) GPXFile" where
  "crop startIndex endIndex trackIndices segmentIndices f =
     f\<lparr> trk := crop_tracks startIndex endIndex trackIndices segmentIndices 0 (trk f) \<rparr>"

section \<open>The selection\<close>

text \<open>
  The items of the file list and their levels (\<open>FileList.ts\<close>, not under src/). The
  selection reaches an operation through its ordered traversal
  (\<open>applyToOrderedSelectedItemsFromFile\<close>): the list of the calls of the callback, one
  per document that has selected items, each with the document id, the level and the
  items at that level. The traversal skips a document with no selected item, so the
  selection is empty exactly when the traversal is.
\<close>

datatype ListLevel = ROOT | FILE | TRACK | SEGMENT | WAYPOINTS | WAYPOINT

datatype ListItem =
    ListRootItem
  | ListFileItem string
  | ListTrackItem string nat
  | ListTrackSegmentItem string nat nat
  | ListWaypointsItem string
  | ListWaypointItem string nat

type_synonym traversal = "(string \<times> ListLevel \<times> ListItem list) list"

text \<open>
  The getters of the items. An item class without the getter makes the call raise a
  \<open>TypeError\<close> (\<open>None\<close>).
\<close>

fun getTrackIndex :: "ListItem \<Rightarrow> nat option" where
  "getTrackIndex (ListTrackItem fileId trackIndex) = Some trackIndex"
| "getTrackIndex (ListTrackSegmentItem fileId trackIndex segmentIndex) = Some trackIndex"
| "getTrackIndex _ = None"

fun getSegmentIndex :: "ListItem \<Rightarrow> nat option" where
  "getSegmentIndex (ListTrackSegmentItem fileId trackIndex segmentIndex) = Some segmentIndex"
| "getSegmentIndex _ = None"

fun mapM :: "('a \<Rightarrow> 'b option) \<Rightarrow> 'a list \<Rightarrow> 'b list option" where
  "mapM g [] = Some []"
| "mapM g (x # xs) =
     (case g x of None \<Rightarrow> None
      | Some y \<Rightarrow> (case mapM g xs of None \<Rightarrow> None | Some ys \<Rightarrow> Some (y # ys)))"

section \<open>Document identifiers\<close>

text \<open>
  \<open>getFileIds\<close> builds the ids \<open>gpx-0\<close>, \<open>gpx-1\<close>, ... from the template string
  \<open>`gpx-${index}`\<close>: \<open>toString\<close> is the decimal representation of a number. The loop
  of \<open>getFileIds\<close> keeps every id that \<open>fileObservers\<close> does not have; \<open>observers\<close> is
  the list of the keys of \<open>fileObservers\<close>. The loop ends because the ids are pairwise
  different and the observers are finitely many.
\<close>

definition digit :: "nat \<Rightarrow> char" where
  "digit d = ''0123456789'' ! d"

fun toString :: "nat \<Rightarrow> string" where
  "toString n = (if n < 10 then [digit n] else toString (n div 10) @ [digit (n mod 10)])"

definition gpx_id :: "nat \<Rightarrow> string" where
  "gpx_id i = ''gpx-'' @ toString i"

function getFileIds_loop :: "string list \<Rightarrow> nat \<Rightarrow> nat \<Rightarrow> string list \<Rightarrow> string list" where
  "getFileIds_loop observers n i ids =
     (if length ids < n then
        (let id = gpx_id i
         in if id \<notin> set observers then getFileIds_loop observers n (i + 1) (ids @ [id])
            else getFileIds_loop observers n (i + 1) ids)
      else ids)"
  by pat_completeness auto

definition getFileIds :: "nat \<Rightarrow> string list \<Rightarrow> string list" where
  "getFileIds n observers = getFileIds_loop observers n 0 []"

lemma digit_inj: "a < 10 \<Longrightarrow> b < 10 \<Longrightarrow> digit a = digit b \<Longrightarrow> a = b"
proof -
  assume "a < 10" "b < 10" "digit a = digit b"
  moreover have "distinct ''0123456789''" by simp
  ultimately show ?thesis
    unfolding digit_def by (simp add: nth_eq_iff_index_eq)
qed

declare toString.simps [simp del]

lemma toString_nonempty: "toString n \<noteq> []"
  by (subst toString.simps) simp

lemma toString_inj: "toString n = toString m \<Longrightarrow> n = m"
proof (induction n arbitrary: m rule: toString.induct)
  case (1 n)
  show ?case
  proof (cases "n < 10")
    case True
    show ?thesis
    proof (cases "m < 10")
      case m: True
      from "1.prems" True m have "digit n = digit m"
        by (simp add: toString.simps [of n] toString.simps [of m])
      with True m show ?thesis by (blast intro: digit_inj)
    next
      case m: False
      from "1.prems" True m have "[digit n] = toString (m div 10) @ [digit (m mod 10)]"
        by (simp add: toString.simps [of n] toString.simps [of m])
      then have "toString (m div 10) = []" by simp
      then show ?thesis by (simp add: toString_nonempty)
    qed
  next
    case False
    show ?thesis
    proof (cases "m < 10")
      case m: True
      from "1.prems" False m have "toString (n div 10) @ [digit (n mod 10)] = [digit m]"
        by (simp add: toString.simps [of n] toString.simps [of m])
      then have "toString (n div 10) = []" by simp
      then show ?thesis by (simp add: toString_nonempty)
    next
      case m: False
      from "1.prems" False m
      have "toString (n div 10) @ [digit (n mod 10)] = toString (m div 10) @ [digit (m mod 10)]"
        by (simp add: toString.simps [of n] toString.simps [of m])
      then have a: "toString (n div 10) = toString (m div 10)" and b: "digit (n mod 10) = digit (m mod 10)"
        by simp_all
      from "1.IH" [OF False a] have "n div 10 = m div 10" .
      moreover from b have "n mod 10 = m mod 10" by (intro digit_inj) simp_all
      ultimately show ?thesis by (metis div_mult_mod_eq)
    qed
  qed
qed

lemma gpx_id_inj: "gpx_id i = gpx_id j \<Longrightarrow> i = j"
  by (simp add: gpx_id_def toString_inj)

lemma filter_length_less:
  assumes "x \<in> set xs" "P x" "\<not> Q x" "\<And>y. Q y \<Longrightarrow> P y"
  shows "length (filter Q xs) < length (filter P xs)"
proof -
  have "filter Q xs = filter Q (filter P xs)"
    using assms(4) by (auto intro: filter_cong)
  moreover have "length (filter Q (filter P xs)) < length (filter P xs)"
    by (rule length_filter_less [of x]) (use assms in auto)
  ultimately show ?thesis by simp
qed

lemma filter_length_le:
  assumes "\<And>y. Q y \<Longrightarrow> P y"
  shows "length (filter Q xs) \<le> length (filter P xs)"
proof -
  have "filter Q xs = filter Q (filter P xs)"
    using assms by (auto intro: filter_cong)
  then show ?thesis by (metis length_filter_le)
qed

lemma later_gpx_id: "\<exists>j\<ge>i + 1. y = gpx_id j \<Longrightarrow> \<exists>j\<ge>i. y = gpx_id j"
proof -
  assume "\<exists>j\<ge>i + 1. y = gpx_id j"
  then obtain j where "i + 1 \<le> j" "y = gpx_id j" by blast
  then have "i \<le> j \<and> y = gpx_id j" by simp
  then show ?thesis by blast
qed

termination getFileIds_loop
proof (relation "measure (\<lambda>(observers, n, i, ids).
          (n - length ids) + length (filter (\<lambda>x. \<exists>j\<ge>i. x = gpx_id j) observers))", goal_cases)
  case 1
  show ?case by simp
next
  case (2 observers n i ids id)
  have "length (filter (\<lambda>x. \<exists>j\<ge>i + 1. x = gpx_id j) observers)
          \<le> length (filter (\<lambda>x. \<exists>j\<ge>i. x = gpx_id j) observers)"
    by (rule filter_length_le) (rule later_gpx_id)
  with 2 show ?case by simp
next
  case (3 observers n i ids id)
  have "length (filter (\<lambda>x. \<exists>j\<ge>i + 1. x = gpx_id j) observers)
          < length (filter (\<lambda>x. \<exists>j\<ge>i. x = gpx_id j) observers)"
  proof (rule filter_length_less [of "gpx_id i"])
    show "gpx_id i \<in> set observers" using 3 by simp
    show "\<exists>j\<ge>i. gpx_id i = gpx_id j" by blast
    show "\<not> (\<exists>j\<ge>i + 1. gpx_id i = gpx_id j)" by (auto dest: gpx_id_inj)
  qed (rule later_gpx_id)
  with 3 show ?case by simp
qed

section \<open>Transactions on the document state\<close>

text \<open>
  Modelled from the spec: the draft of a transaction and the patch pair it yields (the
  Patch Engine of section 4.2; the source calls \<open>produceWithPatches\<close> of the immer
  library, whose code is not under src/). A draft of the document map keeps the state it
  started from (\<open>base\<close>), the working copy (\<open>copy\<close>) and, for every key written or
  deleted, whether the key was last assigned (\<open>True\<close>) or deleted (\<open>False\<close>).
  A callback works on the draft through \<open>draft_get\<close>, \<open>draft_set\<close>, \<open>draft_delete\<close>,
  \<open>draft_clear\<close> and \<open>draft_update\<close>; the last is the in-place edit of a document
  obtained with \<open>draft.get(id)\<close>, recorded at the granularity of the whole document.
\<close>

record 'f Draft =
  base :: "'f DocumentState"
  copy :: "'f DocumentState"
  assigned :: "(string \<times> bool) list"

definition createDraft :: "'f DocumentState \<Rightarrow> 'f Draft" where
  "createDraft S = \<lparr> base = S, copy = S, assigned = [] \<rparr>"

definition draft_get :: "'f Draft \<Rightarrow> string \<Rightarrow> 'f option" where
  "draft_get d k = map_of (copy d) k"

definition draft_set :: "string \<Rightarrow> 'f \<Rightarrow> 'f Draft \<Rightarrow> 'f Draft" where
  "draft_set k v d =
     d\<lparr> copy := AList.update k v (copy d), assigned := AList.update k True (assigned d) \<rparr>"

definition draft_delete :: "string \<Rightarrow> 'f Draft \<Rightarrow> 'f Draft" where
  "draft_delete k d =
     (if map_of (copy d) k = None then d
      else d\<lparr> copy := AList.delete k (copy d),
              assigned := (if map_of (base d) k \<noteq> None then AList.update k False (assigned d)
                           else AList.delete k (assigned d)) \<rparr>)"

definition draft_clear :: "'f Draft \<Rightarrow> 'f Draft" where
  "draft_clear d =
     d\<lparr> copy := [], assigned := fold (\<lambda>k a. AList.update k False a) (map fst (base d)) [] \<rparr>"

definition draft_update :: "string \<Rightarrow> ('f \<Rightarrow> 'f) \<Rightarrow> 'f Draft \<Rightarrow> 'f Draft" where
  "draft_update k f d =
     (case map_of (copy d) k of
        None \<Rightarrow> d
      | Some v \<Rightarrow> d\<lparr> copy := AList.update k (f v) (copy d),
                      assigned := AList.update k True (assigned d) \<rparr>)"

text \<open>
  The operations of one touched key: the forward operation paired with its inverse. A key
  that was deleted yields \<open>remove\<close> (inverse \<open>add\<close> of the old value); a key that was
  assigned yields \<open>add\<close> when the base has no such key (inverse \<open>remove\<close>) and
  \<open>replace\<close> otherwise (inverse \<open>replace\<close> by the old value), and nothing when the
  value is the old one.
\<close>

definition patchesOf ::
  "'f DocumentState \<Rightarrow> 'f DocumentState \<Rightarrow> string \<times> bool \<Rightarrow> ('f Patch \<times> 'f Patch) list" where
  "patchesOf B C ka =
     (let key = fst ka; origValue = map_of B key; val = map_of C key
      in if \<not> snd ka then
           (case origValue of Some ov \<Rightarrow> [(Remove key, Add key ov)] | None \<Rightarrow> [])
         else
           (case val of
              None \<Rightarrow> []
            | Some v \<Rightarrow>
                (case origValue of
                   None \<Rightarrow> [(Add key v, Remove key)]
                 | Some ov \<Rightarrow> if ov = v then [] else [(Replace key v, Replace key ov)])))"

definition finishDraft :: "'f Draft \<Rightarrow> 'f DocumentState \<times> 'f Patch list \<times> 'f Patch list" where
  "finishDraft d =
     (let ps = concat (map (patchesOf (base d) (copy d)) (assigned d))
      in (copy d, map fst ps, map snd ps))"

text \<open>
  A callback may raise an exception (a \<open>TypeError\<close> on reading a property of
  \<open>undefined\<close>): it returns an option, and \<open>None\<close> is the exception, which leaves
  \<open>produceWithPatches\<close> before anything is stored. \<open>draft_mutate\<close> is the in-place edit
  of the document under a key by a method that may raise; a key that the draft does not
  have is skipped (\<open>if (file)\<close>).
\<close>

definition produceWithPatches ::
  "'f DocumentState \<Rightarrow> ('f Draft \<Rightarrow> 'f Draft option) \<Rightarrow>
     ('f DocumentState \<times> 'f Patch list \<times> 'f Patch list) option" where
  "produceWithPatches S callback = map_option finishDraft (callback (createDraft S))"

definition draft_mutate :: "string \<Rightarrow> ('f \<Rightarrow> 'f option) \<Rightarrow> 'f Draft \<Rightarrow> 'f Draft option" where
  "draft_mutate k f d =
     (case draft_get d k of
        None \<Rightarrow> Some d
      | Some v \<Rightarrow> (case f v of None \<Rightarrow> None | Some v' \<Rightarrow> Some (draft_update k (\<lambda>_. v') d)))"

text \<open>
  The callbacks of the source are code that reaches the draft only through its interface:
  \<open>draft_run d d'\<close> holds when \<open>d'\<close> comes from \<open>d\<close> by finitely many calls of it.
\<close>

inductive draft_run :: "'f Draft \<Rightarrow> 'f Draft \<Rightarrow> bool" where
  run_none: "draft_run d d"
| run_set: "draft_run d d' \<Longrightarrow> draft_run d (draft_set k v d')"
| run_delete: "draft_run d d' \<Longrightarrow> draft_run d (draft_delete k d')"
| run_clear: "draft_run d d' \<Longrightarrow> draft_run d (draft_clear d')"
| run_update: "draft_run d d' \<Longrightarrow> draft_run d (draft_update k f d')"

text \<open>
  \<open>applyGlobal\<close>, \<open>applyToFiles\<close> and \<open>applyEachToFilesAndGlobal\<close>: the transaction runs on
  the cache \<open>fileState\<close>, its patch pair is stored in the log, and the new state of the
  changed documents is committed. In \<open>applyEachToFilesAndGlobal\<close> a document with no
  callback at its position makes the call \<open>callbacks[index](file, context)\<close> raise a
  \<open>TypeError\<close>.
\<close>

definition applyGlobal ::
  "('f Draft \<Rightarrow> 'f Draft option) \<Rightarrow> ('f, 'x) AppState_scheme \<Rightarrow> ('f, 'x) AppState_scheme option" where
  "applyGlobal callback s =
     (case produceWithPatches (files s) callback of
        None \<Rightarrow> None
      | Some (newFileState, p, ip) \<Rightarrow>
          Some (commitFileStateChange newFileState p (storePatches p ip s)))"

fun forEachFile :: "string list \<Rightarrow> ('f \<Rightarrow> 'f option) \<Rightarrow> 'f Draft \<Rightarrow> 'f Draft option" where
  "forEachFile [] callback d = Some d"
| "forEachFile (fileId # fileIds) callback d =
     (case draft_mutate fileId callback d of
        None \<Rightarrow> None
      | Some d' \<Rightarrow> forEachFile fileIds callback d')"

definition applyToFiles ::
  "string list \<Rightarrow> ('f \<Rightarrow> 'f option) \<Rightarrow> ('f, 'x) AppState_scheme \<Rightarrow> ('f, 'x) AppState_scheme option" where
  "applyToFiles fileIds callback s =
     (case produceWithPatches (files s) (forEachFile fileIds callback) of
        None \<Rightarrow> None
      | Some (newFileState, p, ip) \<Rightarrow>
          Some (commitFileStateChange newFileState p (storePatches p ip s)))"

fun applyEach :: "string list \<Rightarrow> ('f \<Rightarrow> 'f option) list \<Rightarrow> nat \<Rightarrow> 'f Draft \<Rightarrow> 'f Draft option" where
  "applyEach [] callbacks i d = Some d"
| "applyEach (fileId # fileIds) callbacks i d =
     (case draft_get d fileId of
        None \<Rightarrow> applyEach fileIds callbacks (i + 1) d
      | Some f \<Rightarrow>
          (case nth_opt callbacks i of
             None \<Rightarrow> None
           | Some callback \<Rightarrow>
               (case draft_mutate fileId callback d of
                  None \<Rightarrow> None
                | Some d' \<Rightarrow> applyEach fileIds callbacks (i + 1) d')))"

definition applyEachToFilesAndGlobal ::
  "string list \<Rightarrow> ('f \<Rightarrow> 'f option) list \<Rightarrow> ('f Draft \<Rightarrow> 'f Draft option) \<Rightarrow>
     ('f, 'x) AppState_scheme \<Rightarrow> ('f, 'x) AppState_scheme option" where
  "applyEachToFilesAndGlobal fileIds callbacks globalCallback s =
     (case produceWithPatches (files s)
             (\<lambda>draft. case applyEach fileIds callbacks 0 draft of
                         None \<Rightarrow> None | Some d \<Rightarrow> globalCallback d) of
        None \<Rightarrow> None
      | Some (newFileState, p, ip) \<Rightarrow>
          Some (commitFileStateChange newFileState p (storePatches p ip s)))"

text \<open>The invariant of a draft of the state \<open>S\<close>.\<close>

definition draft_inv :: "'f DocumentState \<Rightarrow> 'f Draft \<Rightarrow> bool" where
  "draft_inv S d =
     (base d = S \<and> distinct (map fst (assigned d)) \<and>
      (\<forall>k. map_of (assigned d) k = None \<longrightarrow> map_of (copy d) k = map_of S k) \<and>
      (\<forall>k. map_of (assigned d) k = Some True \<longrightarrow> map_of (copy d) k \<noteq> None) \<and>
      (\<forall>k. map_of (assigned d) k = Some False \<longrightarrow>
             map_of (copy d) k = None \<and> map_of S k \<noteq> None))"

text \<open>
  What the forward and the inverse operations of a touched key \<open>k\<close> (assigned when \<open>a\<close>,
  deleted otherwise) make of the value \<open>tk\<close> that a state has at \<open>k\<close>.
\<close>

definition fwd_effect ::
  "'f DocumentState \<Rightarrow> 'f DocumentState \<Rightarrow> string \<Rightarrow> bool \<Rightarrow> 'f option \<Rightarrow> 'f option" where
  "fwd_effect B C k a tk =
     (if \<not> a then (if map_of B k \<noteq> None then None else tk)
      else (case map_of C k of None \<Rightarrow> tk
            | Some v \<Rightarrow> if map_of B k = Some v then tk else Some v))"

definition inv_effect ::
  "'f DocumentState \<Rightarrow> 'f DocumentState \<Rightarrow> string \<Rightarrow> bool \<Rightarrow> 'f option \<Rightarrow> 'f option" where
  "inv_effect B C k a tk =
     (if \<not> a then (if map_of B k \<noteq> None then map_of B k else tk)
      else (case map_of C k of None \<Rightarrow> tk
            | Some v \<Rightarrow> if map_of B k = Some v then tk else map_of B k))"

text \<open>
  The contract of a committed transaction from the state \<open>s\<close> to the state \<open>s'\<close>: the log
  entry under the new cursor holds a pair \<open>(patch, inversePatch)\<close> such that the patch
  takes the documents of \<open>s\<close> to those of \<open>s'\<close>, the inverse patch takes them back, and
  the inverse patch followed by the patch ends in the documents of \<open>s'\<close> again. States
  are compared by value: the same documents under the same ids.
\<close>

definition round_trip :: "('f, 'x) AppState_scheme \<Rightarrow> ('f, 'x) AppState_scheme \<Rightarrow> bool" where
  "round_trip s s' =
     (\<exists>e. table_get (patches s') (patchIndex s') = Some e \<and>
          map_of (applyPatches (files s) (patch e)) = map_of (files s') \<and>
          map_of (applyPatches (files s') (inversePatch e)) = map_of (files s) \<and>
          map_of (applyPatches (applyPatches (files s') (inversePatch e)) (patch e)) = map_of (files s'))"

section \<open>The edit operations\<close>

text \<open>
  The operations of \<open>dbUtils\<close>. Each takes the ordered traversal of the selection and the
  state, and returns the new state, or \<open>None\<close> when the callback raises. \<open>getFile\<close>
  reads the committed documents, \<open>draft.get\<close> the working copy of the transaction.
\<close>

fun foldM :: "('a \<Rightarrow> 'b \<Rightarrow> 'b option) \<Rightarrow> 'a list \<Rightarrow> 'b \<Rightarrow> 'b option" where
  "foldM g [] b = Some b"
| "foldM g (x # xs) b = (case g x b of None \<Rightarrow> None | Some b' \<Rightarrow> foldM g xs b')"

subsection \<open>add and deleteAllFiles\<close>

definition add ::
  "('p, 'w) GPXFile \<Rightarrow> (('p, 'w) GPXFile, 'x) AppState_scheme \<Rightarrow>
     (('p, 'w) GPXFile, 'x) AppState_scheme option" where
  "add f s =
     (let fid = (case data_id f of None \<Rightarrow> getFileIds 1 (map fst (files s)) ! 0 | Some i \<Rightarrow> i);
          f' = f\<lparr> data_id := Some fid \<rparr>
      in applyGlobal (\<lambda>draft. Some (draft_set fid f' draft)) s)"

definition deleteAllFiles :: "('f, 'x) AppState_scheme \<Rightarrow> ('f, 'x) AppState_scheme option" where
  "deleteAllFiles s = applyGlobal (\<lambda>draft. Some (draft_clear draft)) s"

subsection \<open>cropSelection\<close>

fun cropSelection_step ::
  "string \<times> ListLevel \<times> ListItem list \<Rightarrow> ('p, 'w) GPXFile Draft \<times> int \<times> int \<Rightarrow>
     (('p, 'w) GPXFile Draft \<times> int \<times> int) option" where
  "cropSelection_step (fileId, level, items) (draft, startIndex, endIndex) =
     (case draft_get draft fileId of
        None \<Rightarrow> Some (draft, startIndex, endIndex)
      | Some f \<Rightarrow>
          (if level = FILE then
             (let n = int (getNumberOfTrackPoints f);
                  draft' =
                    (if startIndex \<ge> n \<or> endIndex < 0 then draft_delete fileId draft
                     else if startIndex > 0 \<or> endIndex < n - 1
                       then draft_update fileId (crop (max 0 startIndex) (min (n - 1) endIndex) None None) draft
                       else draft)
              in Some (draft', startIndex - n, endIndex - n))
           else if level = TRACK then
             (case mapM getTrackIndex items of
                None \<Rightarrow> None
              | Some trackIndices \<Rightarrow>
                  Some (draft_update fileId (crop startIndex endIndex (Some trackIndices) None) draft,
                        startIndex, endIndex))
           else if level = SEGMENT then
             (case nth_opt items 0 of
                None \<Rightarrow> None
              | Some item0 \<Rightarrow>
                  (case getTrackIndex item0 of
                     None \<Rightarrow> None
                   | Some trackIndex \<Rightarrow>
                       (case mapM getSegmentIndex items of
                          None \<Rightarrow> None
                        | Some segmentIndices \<Rightarrow>
                            Some (draft_update fileId
                                    (crop startIndex endIndex (Some [trackIndex]) (Some segmentIndices)) draft,
                                  startIndex, endIndex))))
           else Some (draft, startIndex, endIndex)))"

definition cropSelection ::
  "int \<Rightarrow> int \<Rightarrow> traversal \<Rightarrow> (('p, 'w) GPXFile, 'x) AppState_scheme \<Rightarrow>
     (('p, 'w) GPXFile, 'x) AppState_scheme option" where
  "cropSelection startIndex endIndex sel s =
     (if length sel = 0 then Some s
      else applyGlobal
             (\<lambda>draft. map_option fst (foldM cropSelection_step sel (draft, startIndex, endIndex))) s)"

subsection \<open>mergeSelection\<close>

text \<open>
  The local variables of the callback of \<open>mergeSelection\<close>. \<open>targetFile\<close> refers to a
  document of the draft and is kept as its id; \<open>target\<close> is \<open>None\<close> when it is
  \<open>undefined\<close>.
\<close>

record ('p, 'w) Merge =
  m_draft :: "('p, 'w) GPXFile Draft"
  first :: bool
  target :: "ListItem option"
  targetFile :: "string option"
  toMerge_trk :: "'p Track list"
  toMerge_trkseg :: "'p TrackSegment list"
  toMerge_wpt :: "'w list"

text \<open>
  The loop over the items at the track level: the segments of each track go to the front
  of \<open>toMerge.trkseg\<close>; the last item becomes the target and its track is emptied, every
  other track is removed from the document.
\<close>

fun merge_tracks ::
  "('p, 'w) GPXFile \<Rightarrow> ListItem list \<Rightarrow>
     ('p, 'w) GPXFile \<times> 'p TrackSegment list \<times> ListItem option \<Rightarrow>
     (('p, 'w) GPXFile \<times> 'p TrackSegment list \<times> ListItem option) option" where
  "merge_tracks originalFile [] st = Some st"
| "merge_tracks originalFile (item # items) (f, segs, tgt) =
     (case getTrackIndex item of
        None \<Rightarrow> None
      | Some trackIndex \<Rightarrow>
          (case nth_opt (trk originalFile) trackIndex of
             None \<Rightarrow> None
           | Some ot \<Rightarrow>
               (if length items = 0 then
                  (case nth_opt (trk f) trackIndex of
                     None \<Rightarrow> None
                   | Some t \<Rightarrow>
                       Some (f\<lparr> trk := (trk f)[trackIndex := t\<lparr> trkseg := [] \<rparr>] \<rparr>,
                             trkseg ot @ segs, Some item))
                else merge_tracks originalFile items
                       (f\<lparr> trk := splice1 trackIndex (trk f) \<rparr>, trkseg ot @ segs, tgt))))"

text \<open>
  The loop over the items at the segment level: each segment goes to the front of
  \<open>toMerge.trkseg\<close> and is removed from its track; the last item becomes the target.
\<close>

fun merge_segments ::
  "('p, 'w) GPXFile \<Rightarrow> ListItem list \<Rightarrow>
     ('p, 'w) GPXFile \<times> 'p TrackSegment list \<times> ListItem option \<Rightarrow>
     (('p, 'w) GPXFile \<times> 'p TrackSegment list \<times> ListItem option) option" where
  "merge_segments originalFile [] st = Some st"
| "merge_segments originalFile (item # items) (f, segs, tgt) =
     (case getTrackIndex item of
        None \<Rightarrow> None
      | Some trackIndex \<Rightarrow>
          (case getSegmentIndex item of
             None \<Rightarrow> None
           | Some segmentIndex \<Rightarrow>
               (case nth_opt (trk originalFile) trackIndex of
                  None \<Rightarrow> None
                | Some ot \<Rightarrow>
                    (case nth_opt (trkseg ot) segmentIndex of
                       None \<Rightarrow> None
                     | Some seg \<Rightarrow>
                         (case nth_opt (trk f) trackIndex of
                            None \<Rightarrow> None
                          | Some t \<Rightarrow>
                              merge_segments originalFile items
                                (f\<lparr> trk := (trk f)[trackIndex :=
                                             t\<lparr> trkseg := splice1 segmentIndex (trkseg t) \<rparr>] \<rparr>,
                                 seg # segs,
                                 if length items = 0 then Some item else tgt))))))"

definition merge_step ::
  "('p, 'w) GPXFile DocumentState \<Rightarrow> string \<times> ListLevel \<times> ListItem list \<Rightarrow>
     ('p, 'w) Merge \<Rightarrow> ('p, 'w) Merge option" where
  "merge_step S g m =
     (case g of (fileId, level, items) \<Rightarrow>
       (case draft_get (m_draft m) fileId of
          None \<Rightarrow> Some m
        | Some f \<Rightarrow>
           (case map_of S fileId of
              None \<Rightarrow> Some m
            | Some originalFile \<Rightarrow>
               (if level = FILE then
                  (let m1 = m\<lparr> toMerge_trk := toMerge_trk m @ trk originalFile,
                                toMerge_wpt := toMerge_wpt m @ wpt originalFile \<rparr>;
                       m2 = (if first m then m1\<lparr> target := nth_opt items 0, targetFile := Some fileId \<rparr>
                             else m1\<lparr> m_draft := draft_delete fileId (m_draft m1) \<rparr>)
                   in Some (m2\<lparr> first := False \<rparr>))
                else if level = TRACK then
                  (case merge_tracks originalFile items (f, toMerge_trkseg m, target m) of
                     None \<Rightarrow> None
                   | Some (f', segs, tgt) \<Rightarrow>
                       Some (m\<lparr> m_draft := draft_update fileId (\<lambda>_. f') (m_draft m),
                                toMerge_trkseg := segs, target := tgt,
                                targetFile := Some fileId, first := False \<rparr>))
                else if level = SEGMENT then
                  (case merge_segments originalFile items (f, toMerge_trkseg m, target m) of
                     None \<Rightarrow> None
                   | Some (f', segs, tgt) \<Rightarrow>
                       Some (m\<lparr> m_draft := draft_update fileId (\<lambda>_. f') (m_draft m),
                                toMerge_trkseg := segs, target := tgt,
                                targetFile := Some fileId, first := False \<rparr>))
                else Some (m\<lparr> targetFile := Some fileId, first := False \<rparr>)))))"

text \<open>
  The blending of traces (\<open>mergeTraces\<close>). \<open>blend pts new\<close> stands for
  \<open>s.replaceTrackPoints(s.trkpt.length, s.trkpt.length, new, speed, startTime)\<close> on a
  segment \<open>s\<close> with the points \<open>pts\<close>: the appended points are given new timestamps from
  the speed and start time of the current statistics, which are kept in the parameter.
\<close>

definition blend_segments :: "('p list \<Rightarrow> 'p list \<Rightarrow> 'p list) \<Rightarrow> 'p TrackSegment list \<Rightarrow> 'p TrackSegment" where
  "blend_segments blend segments = \<lparr> trkpt = fold (\<lambda>segment pts. blend pts (trkpt segment)) segments [] \<rparr>"

definition merge_blend ::
  "('p list \<Rightarrow> 'p list \<Rightarrow> 'p list) \<Rightarrow> ('p, 'w) Merge \<Rightarrow> ('p, 'w) Merge" where
  "merge_blend blend m =
     (let m1 = (case toMerge_trk m of
                  [] \<Rightarrow> m
                | t0 # ts \<Rightarrow>
                    if length (trkseg t0) > 0 then
                      m\<lparr> toMerge_trk :=
                           [t0\<lparr> trkseg := [blend_segments blend (concat (map trkseg (toMerge_trk m)))] \<rparr>] \<rparr>
                    else m)
      in if length (toMerge_trkseg m1) > 0 then
           m1\<lparr> toMerge_trkseg := [blend_segments blend (toMerge_trkseg m1)] \<rparr>
         else m1)"

definition merge_finish :: "('p, 'w) Merge \<Rightarrow> ('p, 'w) GPXFile Draft option" where
  "merge_finish m =
     (case targetFile m of
        None \<Rightarrow> Some (m_draft m)
      | Some tf \<Rightarrow>
          (case target m of
             Some (ListFileItem fileId) \<Rightarrow>
               Some (draft_update tf
                      (\<lambda>f. let f1 = replaceTracks 0 (int (length (trk f)) - 1) (toMerge_trk m) f
                            in replaceWaypoints 0 (int (length (wpt f1)) - 1) (toMerge_wpt m) f1)
                      (m_draft m))
           | Some (ListTrackItem fileId trackIndex) \<Rightarrow>
               draft_mutate tf (replaceTrackSegments trackIndex 0 (- 1) (toMerge_trkseg m)) (m_draft m)
           | Some (ListTrackSegmentItem fileId trackIndex segmentIndex) \<Rightarrow>
               draft_mutate tf
                 (replaceTrackSegments trackIndex (int segmentIndex) (int segmentIndex - 1) (toMerge_trkseg m))
                 (m_draft m)
           | _ \<Rightarrow> Some (m_draft m)))"

definition mergeSelection_callback ::
  "('p list \<Rightarrow> 'p list \<Rightarrow> 'p list) \<Rightarrow> bool \<Rightarrow> traversal \<Rightarrow> ('p, 'w) GPXFile DocumentState \<Rightarrow>
     ('p, 'w) GPXFile Draft \<Rightarrow> ('p, 'w) GPXFile Draft option" where
  "mergeSelection_callback blend mergeTraces sel S draft =
     (case foldM (merge_step S) sel
             \<lparr> m_draft = draft, first = True, target = Some ListRootItem, targetFile = None,
               toMerge_trk = [], toMerge_trkseg = [], toMerge_wpt = [] \<rparr> of
        None \<Rightarrow> None
      | Some m \<Rightarrow> merge_finish (if mergeTraces then merge_blend blend m else m))"

definition mergeSelection ::
  "('p list \<Rightarrow> 'p list \<Rightarrow> 'p list) \<Rightarrow> bool \<Rightarrow> traversal \<Rightarrow>
     (('p, 'w) GPXFile, 'x) AppState_scheme \<Rightarrow> (('p, 'w) GPXFile, 'x) AppState_scheme option" where
  "mergeSelection blend mergeTraces sel s =
     applyGlobal (mergeSelection_callback blend mergeTraces sel (files s)) s"

subsection \<open>extractSelection\<close>

text \<open>
  Distances are JavaScript numbers, kept as reals; \<open>MAX_VALUE\<close> is \<open>Number.MAX_VALUE\<close>.
  The function \<open>distance\<close> of the package \<open>gpx\<close> is not under src/: the operations take
  \<open>distance point x\<close>, the distance between the coordinates of a track point and those of
  \<open>x\<close>, as a parameter.
\<close>

definition MAX_VALUE :: real where
  "MAX_VALUE = (2 ^ 53 - 1) * 2 ^ 971"

text \<open>
  An entry of the array \<open>closest\<close>: the index of the waypoint, the indices (of tracks, or
  of segments) whose points are nearest so far, and the least distance so far.
\<close>

type_synonym closest = "nat \<times> nat list \<times> real"

definition closest_init :: "'w list \<Rightarrow> closest list" where
  "closest_init wpts = map (\<lambda>wptIndex. (wptIndex, [0], MAX_VALUE)) [0..<length wpts]"

text \<open>The body of the innermost loop: one point against one waypoint.\<close>

definition closest_update :: "real \<Rightarrow> nat \<Rightarrow> closest \<Rightarrow> closest" where
  "closest_update dst i c =
     (case c of (wptIndex, indices, least) \<Rightarrow>
        if dst < least then (wptIndex, [i], dst)
        else if dst = least then (wptIndex, indices @ [i], least)
        else c)"

definition closest_point ::
  "('p \<Rightarrow> 'w \<Rightarrow> real) \<Rightarrow> 'w list \<Rightarrow> nat \<Rightarrow> 'p \<Rightarrow> closest list \<Rightarrow> closest list" where
  "closest_point distance wpts i point cl =
     fold (\<lambda>wptIndex cl.
             case nth_opt cl wptIndex of
               None \<Rightarrow> cl
             | Some c \<Rightarrow> cl[wptIndex := closest_update (distance point (wpts ! wptIndex)) i c])
          [0..<length wpts] cl"

text \<open>
  The loops over the tracks (or over the segments of the only track) and their points:
  \<open>groups\<close> lists, for each index, the points visited under it, in order.
\<close>

definition closest_of :: "('p \<Rightarrow> 'w \<Rightarrow> real) \<Rightarrow> 'w list \<Rightarrow> 'p list list \<Rightarrow> closest list" where
  "closest_of distance wpts groups =
     fold (\<lambda>(i, points) cl. fold (closest_point distance wpts i) points cl)
          (enumerate 0 groups) (closest_init wpts)"

text \<open>
  The waypoints of the new document number \<open>i\<close>:
  \<open>closest.filter((c) => c.index.includes(index)).map((c) => file.wpt[c.wptIndex])\<close>.
\<close>

definition closest_waypoints :: "closest list \<Rightarrow> 'w list \<Rightarrow> nat \<Rightarrow> 'w list" where
  "closest_waypoints cl wpts i =
     map (\<lambda>c. wpts ! fst c) (filter (\<lambda>c. i \<in> set (fst (snd c))) cl)"

text \<open>A template string prints \<open>undefined\<close> for a missing name.\<close>

fun template :: "string option \<Rightarrow> string" where
  "template None = ''undefined''"
| "template (Some n) = n"

text \<open>
  \<open>track.trkseg.map((segment, segmentIndex) => ...)\<close>: one track per segment of the
  track, named after the track when it has a non-empty name.
\<close>

definition extract_track :: "'p Track \<Rightarrow> 'p Track list" where
  "extract_track track =
     map (\<lambda>(segmentIndex, segment).
            (let t = Track_replaceTrackSegments 0 (int (length (trkseg track)) - 1) [segment] track
             in case name track of
                  None \<Rightarrow> t
                | Some n \<Rightarrow> if n = [] then t
                            else t\<lparr> name := Some (n @ '' ('' @ toString (segmentIndex + 1) @ '')'') \<rparr>))
         (enumerate 0 (trkseg track))"

definition points_of_track :: "'p Track \<Rightarrow> 'p list" where
  "points_of_track track = concat (map trkpt (trkseg track))"

text \<open>The branch \<open>file.trk.length > 1\<close>: one new document per track.\<close>

definition extract_tracks ::
  "('p \<Rightarrow> 'w \<Rightarrow> real) \<Rightarrow> string list \<Rightarrow> ('p, 'w) GPXFile \<Rightarrow> ('p, 'w) GPXFile Draft \<Rightarrow>
     ('p, 'w) GPXFile Draft" where
  "extract_tracks distance observers f draft =
     (let fileIds = getFileIds (length (trk f)) observers;
          cl = closest_of distance (wpt f) (map points_of_track (trk f))
      in fold (\<lambda>(i, track) d.
                 (let newFile0 = replaceTracks 0 (int (length (trk f)) - 1) (extract_track track) f;
                      newFile1 = replaceWaypoints 0 (int (length (wpt f)) - 1)
                                   (closest_waypoints cl (wpt f) i) newFile0;
                      newFile = newFile1\<lparr> data_id := Some (fileIds ! i),
                                  metadata_name := Some (case name track of
                                      Some n \<Rightarrow> n
                                    | None \<Rightarrow> template (metadata_name f) @ '' ('' @ toString (i + 1) @ '')'') \<rparr>
                  in draft_set (fileIds ! i) newFile d))
              (enumerate 0 (trk f)) draft)"

text \<open>The branch \<open>file.trk.length === 1\<close>: one new document per segment of the track.\<close>

definition extract_segments ::
  "('p \<Rightarrow> 'w \<Rightarrow> real) \<Rightarrow> string list \<Rightarrow> ('p, 'w) GPXFile \<Rightarrow> ('p, 'w) GPXFile Draft \<Rightarrow>
     ('p, 'w) GPXFile Draft option" where
  "extract_segments distance observers f draft =
     (let track0 = trk f ! 0;
          fileIds = getFileIds (length (trkseg track0)) observers;
          cl = closest_of distance (wpt f) (map trkpt (trkseg track0))
      in foldM (\<lambda>(i, segment) d.
                 (case replaceTrackSegments 0 0 (int (length (trkseg track0)) - 1) [segment] f of
                    None \<Rightarrow> None
                  | Some newFile0 \<Rightarrow>
                     (let newFile1 = replaceWaypoints 0 (int (length (wpt f)) - 1)
                                       (closest_waypoints cl (wpt f) i) newFile0;
                          newFile = newFile1\<lparr> data_id := Some (fileIds ! i),
                                      metadata_name := Some ((case name track0 of
                                          Some n \<Rightarrow> n
                                        | None \<Rightarrow> template (metadata_name f)) @ '' ('' @ toString (i + 1) @ '')'') \<rparr>
                      in Some (draft_set (fileIds ! i) newFile d))))
              (enumerate 0 (trkseg track0)) draft)"

definition extractSelection_step ::
  "('p \<Rightarrow> 'w \<Rightarrow> real) \<Rightarrow> ('p, 'w) GPXFile DocumentState \<Rightarrow> string \<times> ListLevel \<times> ListItem list \<Rightarrow>
     ('p, 'w) GPXFile Draft \<Rightarrow> ('p, 'w) GPXFile Draft option" where
  "extractSelection_step distance S g draft =
     (case g of (fileId, level, items) \<Rightarrow>
        if level = FILE then
          (case map_of S fileId of
             None \<Rightarrow> Some draft
           | Some f \<Rightarrow>
               (case (if length (trk f) > 1 then Some (extract_tracks distance (map fst S) f draft)
                      else if length (trk f) = 1 then extract_segments distance (map fst S) f draft
                      else Some draft) of
                  None \<Rightarrow> None
                | Some d \<Rightarrow> Some (draft_delete fileId d)))
        else if level = TRACK then
          draft_mutate fileId
            (foldM (\<lambda>item f.
                      case getTrackIndex item of
                        None \<Rightarrow> None
                      | Some trackIndex \<Rightarrow>
                          (case nth_opt (trk f) trackIndex of
                             None \<Rightarrow> None
                           | Some track \<Rightarrow>
                               Some (replaceTracks (int trackIndex) (int trackIndex) (extract_track track) f)))
                   items)
            draft
        else Some draft)"

definition extractSelection ::
  "('p \<Rightarrow> 'w \<Rightarrow> real) \<Rightarrow> traversal \<Rightarrow> (('p, 'w) GPXFile, 'x) AppState_scheme \<Rightarrow>
     (('p, 'w) GPXFile, 'x) AppState_scheme option" where
  "extractSelection distance sel s = applyGlobal (foldM (extractSelection_step distance (files s)) sel) s"

subsection \<open>split\<close>

text \<open>
  The search of \<open>dbUtils.split\<close> for the point of the segment closest to the given
  coordinates: the loop over the indices of \<open>segment.trkpt\<close>, with the variables
  \<open>minDistance\<close> and \<open>minIndex\<close>.
\<close>

definition split_closest :: "('p \<Rightarrow> 'c \<Rightarrow> real) \<Rightarrow> 'p list \<Rightarrow> 'c \<Rightarrow> real \<times> nat" where
  "split_closest distance trkpts coordinates =
     fold (\<lambda>i (minDistance, minIndex).
             (let dst = distance (trkpts ! i) coordinates
              in if dst < minDistance then (dst, i) else (minDistance, minIndex)))
          [0..<length trkpts] (MAX_VALUE, 0)"

definition split_minIndex :: "('p \<Rightarrow> 'c \<Rightarrow> real) \<Rightarrow> 'p list \<Rightarrow> 'c \<Rightarrow> nat" where
  "split_minIndex distance trkpts coordinates = snd (split_closest distance trkpts coordinates)"

text \<open>
  \<open>nearest distance w groups i\<close>: the group number \<open>i\<close> (a track, or a segment of the only
  track) has a point whose distance to the waypoint \<open>w\<close> is minimal among all the points
  of all the groups.
\<close>

definition nearest :: "('p \<Rightarrow> 'w \<Rightarrow> real) \<Rightarrow> 'w \<Rightarrow> 'p list list \<Rightarrow> nat \<Rightarrow> bool" where
  "nearest distance w groups i =
     (\<exists>p\<in>set (groups ! i). \<forall>g\<in>set groups. \<forall>q\<in>set g. distance p w \<le> distance q w)"

text \<open>The visits of one waypoint: the index and the distance of every point, in order.\<close>

definition visits :: "('p \<Rightarrow> 'w \<Rightarrow> real) \<Rightarrow> 'w \<Rightarrow> (nat \<times> 'p list) list \<Rightarrow> (nat \<times> real) list" where
  "visits distance w egroups = concat (map (\<lambda>(i, points). map (\<lambda>p. (i, distance p w)) points) egroups)"

section \<open>Example documents\<close>

text \<open>
  Documents on a line: a point and a waypoint are real numbers and their distance is the
  absolute difference. \<open>twoTracks\<close> has the tracks \<open>[0]\<close> and \<open>[2]\<close> and the waypoint
  \<open>1\<close>, at the same distance from both.
\<close>

definition line_distance :: "real \<Rightarrow> real \<Rightarrow> real" where
  "line_distance p w = \<bar>p - w\<bar>"

definition twoTracks :: "(real, real) GPXFile" where
  "twoTracks = \<lparr> data_id = Some ''gpx-0'', metadata_name = Some ''a'',
                 trk = [\<lparr> name = None, trkseg = [\<lparr> trkpt = [0] \<rparr>] \<rparr>,
                        \<lparr> name = None, trkseg = [\<lparr> trkpt = [2] \<rparr>] \<rparr>],
                 wpt = [1] \<rparr>"

text \<open>
  \<open>threePoints\<close> has one track with one segment of three points; \<open>noPoints\<close> is a new,
  empty document; \<open>docA\<close> and \<open>docB\<close> are two different documents that have no id yet.
\<close>

definition threePoints :: "(real, real) GPXFile" where
  "threePoints = \<lparr> data_id = Some ''gpx-0'', metadata_name = Some ''a'',
                   trk = [\<lparr> name = None, trkseg = [\<lparr> trkpt = [0, 1, 2] \<rparr>] \<rparr>], wpt = [] \<rparr>"

definition threePointsState :: "(real, real) GPXFile AppState" where
  "threePointsState = \<lparr> files = [(''gpx-0'', threePoints)], patches = [], patchIndex = - 1 \<rparr>"

definition noPoints :: "(real, real) GPXFile" where
  "noPoints = \<lparr> data_id = Some ''gpx-0'', metadata_name = Some ''new'', trk = [], wpt = [] \<rparr>"

definition noPointsState :: "(real, real) GPXFile AppState" where
  "noPointsState = \<lparr> files = [(''gpx-0'', noPoints)], patches = [], patchIndex = - 1 \<rparr>"

definition docA :: "(real, real) GPXFile" where
  "docA = \<lparr> data_id = None, metadata_name = Some ''A'', trk = [], wpt = [] \<rparr>"

definition docB :: "(real, real) GPXFile" where
  "docB = \<lparr> data_id = None, metadata_name = Some ''B'', trk = [], wpt = [] \<rparr>"

definition croppedThreePoints :: "(real, real) GPXFile" where
  "croppedThreePoints = \<lparr> data_id = Some ''gpx-0'', metadata_name = Some ''a'',
                   trk = [], wpt = [] \<rparr>"

text \<open>
  \<open>undoneEdit\<close>: the state after one edit (the addition of \<open>noPoints\<close>) and one undo; the
  edit can be redone.
\<close>

definition undoneEdit :: "(real, real) GPXFile AppState" where
  "undoneEdit = \<lparr> files = [],
                  patches = [(0, \<lparr> patch = [Add ''gpx-0'' noPoints], inversePatch = [Remove ''gpx-0''], index = 0 \<rparr>)],
                  patchIndex = - 1 \<rparr>"

text \<open>
  \<open>otherTracks\<close> is a second document with two tracks, \<open>[10]\<close> and \<open>[12]\<close>, and the
  waypoint \<open>11\<close>; \<open>twoFilesState\<close> holds \<open>twoTracks\<close> and \<open>otherTracks\<close>.
\<close>

definition otherTracks :: "(real, real) GPXFile" where
  "otherTracks = \<lparr> data_id = Some ''gpx-1'', metadata_name = Some ''b'',
                   trk = [\<lparr> name = None, trkseg = [\<lparr> trkpt = [10] \<rparr>] \<rparr>,
                          \<lparr> name = None, trkseg = [\<lparr> trkpt = [12] \<rparr>] \<rparr>],
                   wpt = [11] \<rparr>"

definition twoFilesState :: "(real, real) GPXFile AppState" where
  "twoFilesState = \<lparr> files = [(''gpx-0'', twoTracks), (''gpx-1'', otherTracks)],
                     patches = [], patchIndex = - 1 \<rparr>"






section \<open>The statistics tree\<close>

text \<open>
  A node of class \<open>GPXStatisticsTree\<close> has a level and the object \<open>statistics\<close>, whose
  values are statistics or subtrees. The constructor fills the object with the keys
  \<open>0, \<dots>, n - 1\<close> (\<open>element.children.forEach((child, index) => \<dots>)\<close>) and nothing else
  writes to it, so the object is the list of its values: the key \<open>k\<close> is present when
  \<open>k\<close> is less than the length of the list, and \<open>Object.keys\<close> enumerates
  \<open>0, \<dots>, n - 1\<close> in this order.
\<close>

datatype ('st, 't) Child = Statistics 'st | Subtree 't

datatype 'st GPXStatisticsTree =
  GPXStatisticsTree (level: ListLevel) (statistics: "('st, 'st GPXStatisticsTree) Child list")

text \<open>
  The constructor: a file gives a node of level \<open>FILE\<close> with one subtree for each track, a
  track gives a node of level \<open>TRACK\<close> with the statistics of each segment.
  \<open>getStatistics\<close> (of class \<open>TrackSegment\<close>) is a parameter.
\<close>

definition newTrackTree :: "('p TrackSegment \<Rightarrow> 'st) \<Rightarrow> 'p Track \<Rightarrow> 'st GPXStatisticsTree" where
  "newTrackTree getStatistics element =
     GPXStatisticsTree TRACK (map (\<lambda>child. Statistics (getStatistics child)) (trkseg element))"

definition newFileTree :: "('p TrackSegment \<Rightarrow> 'st) \<Rightarrow> ('p, 'w) GPXFile \<Rightarrow> 'st GPXStatisticsTree" where
  "newFileTree getStatistics element =
     GPXStatisticsTree FILE (map (\<lambda>child. Subtree (newTrackTree getStatistics child)) (trk element))"

text \<open>
  Modelled from the spec: the value of \<open>item.getIdAtLevel(level)\<close> at a level of the tree
  (class \<open>ListItem\<close> of \<open>FileList.ts\<close>, not under src/) is the selector of section 4.5:
  absent (\<open>undefined\<close>, here \<open>None\<close>), the selector \<open>'waypoints'\<close> of all the waypoints, or
  an index. The function \<open>getIdAtLevel\<close> itself, the constructor \<open>new GPXStatistics()\<close>
  (\<open>newStatistics\<close>) and \<open>mergeWith\<close> (package \<open>gpx\<close>) are parameters.
\<close>

datatype Id = Waypoints | Index nat

lemma foldM_cong [fundef_cong]:
  "xs = ys \<Longrightarrow> b = c \<Longrightarrow> (\<And>x a. x \<in> set ys \<Longrightarrow> f x a = g x a) \<Longrightarrow> foldM f xs b = foldM g ys c"
  by (induction ys arbitrary: xs b c) (auto split: option.split)

lemma nth_opt_size:
  "nth_opt xs k = Some (Subtree t) \<Longrightarrow> size t < Suc (size_list (size_Child (\<lambda>_. 0) size) xs)"
proof -
  assume "nth_opt xs k = Some (Subtree t)"
  then have "k < length xs" "xs ! k = Subtree t" by (auto simp: nth_opt_def split: if_splits)
  then have "Subtree t \<in> set xs" using nth_mem [of k xs] by simp
  then have "size_Child (\<lambda>_. 0) size (Subtree t) \<le> size_list (size_Child (\<lambda>_. 0) size) xs"
    by (rule size_list_estimation') simp
  then show ?thesis by simp
qed

text \<open>
  \<open>getStatisticsFor\<close>. The result is \<open>None\<close> when the code raises a \<open>TypeError\<close>: in the
  loop over \<open>Object.keys(this.statistics)\<close> the value \<open>this.statistics[key]\<close> is used
  without a test, so a key without a value would raise.
\<close>

function getStatisticsFor ::
  "(ListItem \<Rightarrow> ListLevel \<Rightarrow> Id option) \<Rightarrow> ('st \<Rightarrow> 'st \<Rightarrow> 'st) \<Rightarrow> 'st \<Rightarrow>
     'st GPXStatisticsTree \<Rightarrow> ListItem \<Rightarrow> 'st option" where
  "getStatisticsFor getIdAtLevel mergeWith newStatistics (GPXStatisticsTree lvl stats) item =
     (let all = foldM (\<lambda>key st.
                   case nth_opt stats key of
                     None \<Rightarrow> None
                   | Some (Statistics c) \<Rightarrow> Some (mergeWith st c)
                   | Some (Subtree t) \<Rightarrow>
                       map_option (mergeWith st) (getStatisticsFor getIdAtLevel mergeWith newStatistics t item))
                 [0 ..< length stats] newStatistics
      in case getIdAtLevel item lvl of
           None \<Rightarrow> all
         | Some Waypoints \<Rightarrow> all
         | Some (Index i) \<Rightarrow>
            (case nth_opt stats i of
               None \<Rightarrow> Some newStatistics
             | Some (Statistics c) \<Rightarrow> Some (mergeWith newStatistics c)
             | Some (Subtree t) \<Rightarrow>
                 map_option (mergeWith newStatistics) (getStatisticsFor getIdAtLevel mergeWith newStatistics t item)))"
  by pat_completeness auto
termination
  by (relation "measure (\<lambda>(g, m, e, t, i). size t)") (auto dest: nth_opt_size)

text \<open>The statistics that a child contributes to the statistics of an item.\<close>

definition childStatistics ::
  "(ListItem \<Rightarrow> ListLevel \<Rightarrow> Id option) \<Rightarrow> ('st \<Rightarrow> 'st \<Rightarrow> 'st) \<Rightarrow> 'st \<Rightarrow>
     ListItem \<Rightarrow> ('st, 'st GPXStatisticsTree) Child \<Rightarrow> 'st option" where
  "childStatistics getIdAtLevel mergeWith newStatistics item child =
     (case child of
        Statistics c \<Rightarrow> Some c
      | Subtree t \<Rightarrow> getStatisticsFor getIdAtLevel mergeWith newStatistics t item)"

text \<open>
  Examples: the ids at the levels \<open>FILE\<close> and \<open>TRACK\<close> of a tree, and the tree of a file
  with two tracks, where the statistics of a segment are its number of points.
\<close>

fun exampleIds :: "ListItem \<Rightarrow> ListLevel \<Rightarrow> Id option" where
  "exampleIds (ListTrackItem f t) FILE = Some (Index t)"
| "exampleIds (ListTrackSegmentItem f t s) FILE = Some (Index t)"
| "exampleIds (ListTrackSegmentItem f t s) TRACK = Some (Index s)"
| "exampleIds (ListWaypointsItem f) FILE = Some Waypoints"
| "exampleIds (ListWaypointItem f w) FILE = Some Waypoints"
| "exampleIds item lvl = None"

definition exampleTree :: "nat GPXStatisticsTree" where
  "exampleTree = GPXStatisticsTree FILE
     [Subtree (GPXStatisticsTree TRACK [Statistics 2, Statistics 3]),
      Subtree (GPXStatisticsTree TRACK [Statistics 5])]"

section \<open>The patch log and the cursor\<close>

lemma keys_filter: "map fst (filter (\<lambda>(i, e). P i) t) = filter P (map fst t)"
  by (induction t) auto

lemma filter_upto_above: "filter (\<lambda>i. \<not> c < i) [lo..hi] = [lo..min c hi]"
  by (rule sorted_distinct_set_unique) (auto simp: sorted_wrt_filter)

lemma filter_upto_below: "filter (\<lambda>i. \<not> i \<le> k) [lo..hi] = [max lo (k + 1)..hi]"
  by (rule sorted_distinct_set_unique) (auto simp: sorted_wrt_filter)

lemma keys_table_put_last:
  "\<forall>i\<in>set (map fst t). i < k \<Longrightarrow> map fst (table_put k v t) = map fst t @ [k]"
  by (induction t) auto

lemma map_of_table_put: "map_of (table_put k v t) = (map_of t)(k \<mapsto> v)"
  by (induction t) (auto simp: fun_eq_iff)

lemma map_of_table_filter:
  "map_of (filter (\<lambda>(i, e). P i) t) k = (if P k then map_of t k else None)"
  by (induction t) auto

lemma minmax_upto:
  "table_keys (patches s) = [lo..hi] \<Longrightarrow> lo \<le> hi \<Longrightarrow> patchMinMaxIndex s = (lo, hi + 1)"
  by (simp add: patchMinMaxIndex_def Let_def)

lemma minmax_empty:
  "table_keys (patches s) = [] \<Longrightarrow> patchMinMaxIndex s = (0, 0)"
  by (simp add: patchMinMaxIndex_def Let_def)

lemma history_inv_initial: "history_inv initialState"
  by (simp add: history_inv_def initialState_def patchMinMaxIndex_def table_keys_def MAX_PATCHES_def)

lemma storePatches_patchIndex: "patchIndex (storePatches p ip s) = patchIndex s + 1"
  by (simp add: storePatches_def Let_def)

lemma storePatches_keys:
  assumes "history_inv s"
  shows "table_keys (patches (storePatches p ip s)) =
           [min (if snd (patchMinMaxIndex s) - fst (patchMinMaxIndex s) + 1 > MAX_PATCHES
                 then fst (patchMinMaxIndex s) + 1 else fst (patchMinMaxIndex s)) (patchIndex s + 1)
            ..patchIndex s + 1]"
proof -
  obtain mn mx where mm: "patchMinMaxIndex s = (mn, mx)" by (cases "patchMinMaxIndex s")
  define c where "c = patchIndex s"
  from assms mm have keys: "map fst (patches s) = [mn..mx - 1]" and sz: "mx - mn \<le> MAX_PATCHES"
    and lo: "mn - 1 \<le> c" and hi: "c \<le> mx - 1"
    by (simp_all add: history_inv_def Let_def table_keys_def c_def)
  have k1: "map fst (delete_above c (patches s)) = [mn..c]"
    using hi by (simp add: delete_above_def keys_filter keys filter_upto_above min_def)
  show ?thesis
  proof (cases "mx - mn + 1 > MAX_PATCHES")
    case True
    with sz have eq: "mx - MAX_PATCHES = mn" by simp
    have k2: "map fst (delete_belowOrEqual (mx - MAX_PATCHES) (delete_above c (patches s))) = [mn + 1..c]"
      by (simp add: delete_belowOrEqual_def keys_filter k1 filter_upto_below eq max_def)
    have "map fst (table_put (c + 1) e (delete_belowOrEqual (mx - MAX_PATCHES) (delete_above c (patches s))))
            = [mn + 1..c] @ [c + 1]" for e
      by (subst keys_table_put_last) (simp_all add: k2)
    also have "[mn + 1..c] @ [c + 1] = [min (mn + 1) (c + 1)..c + 1]"
      using lo by (cases "mn \<le> c") (simp_all add: upto_rec2 min_def)
    finally show ?thesis
      using True by (simp add: storePatches_def Let_def mm table_keys_def c_def)
  next
    case False
    have "map fst (table_put (c + 1) e (delete_above c (patches s))) = [mn..c] @ [c + 1]" for e
      by (subst keys_table_put_last) (simp_all add: k1)
    also have "[mn..c] @ [c + 1] = [min mn (c + 1)..c + 1]"
      using lo by (simp add: upto_rec2 min_def)
    finally show ?thesis
      using False by (simp add: storePatches_def Let_def mm table_keys_def c_def)
  qed
qed


lemma storePatches_length:
  assumes "history_inv s"
  shows "int (length (patches (storePatches p ip s))) \<le> MAX_PATCHES"
proof -
  have "length (patches (storePatches p ip s)) = length (table_keys (patches (storePatches p ip s)))"
    by (simp add: table_keys_def)
  moreover from assms have "fst (patchMinMaxIndex s) - 1 \<le> patchIndex s"
    "patchIndex s \<le> snd (patchMinMaxIndex s) - 1"
    "snd (patchMinMaxIndex s) - fst (patchMinMaxIndex s) \<le> MAX_PATCHES"
    by (simp_all add: history_inv_def Let_def)
  ultimately show ?thesis
    by (simp add: storePatches_keys [OF assms] MAX_PATCHES_def min_def)
qed

lemma storePatches_inv:
  assumes "history_inv s"
  shows "history_inv (storePatches p ip s)"
proof -
  let ?s' = "storePatches p ip s"
  let ?lo = "min (if snd (patchMinMaxIndex s) - fst (patchMinMaxIndex s) + 1 > MAX_PATCHES
                 then fst (patchMinMaxIndex s) + 1 else fst (patchMinMaxIndex s)) (patchIndex s + 1)"
  have keys: "table_keys (patches ?s') = [?lo..patchIndex s + 1]"
    by (rule storePatches_keys [OF assms])
  have mm: "patchMinMaxIndex ?s' = (?lo, patchIndex s + 1 + 1)"
    by (rule minmax_upto [OF keys]) simp
  from assms have "fst (patchMinMaxIndex s) - 1 \<le> patchIndex s"
    "patchIndex s \<le> snd (patchMinMaxIndex s) - 1"
    "snd (patchMinMaxIndex s) - fst (patchMinMaxIndex s) \<le> MAX_PATCHES"
    by (simp_all add: history_inv_def Let_def)
  then show ?thesis
    unfolding history_inv_def Let_def mm fst_conv snd_conv storePatches_patchIndex
    using keys by (simp add: MAX_PATCHES_def min_def add.commute)
qed

lemma map_of_delete_above: "map_of (delete_above c t) k = (if c < k then None else map_of t k)"
  by (simp add: delete_above_def map_of_table_filter)

lemma map_of_delete_belowOrEqual:
  "map_of (delete_belowOrEqual c t) k = (if k \<le> c then None else map_of t k)"
  by (simp add: delete_belowOrEqual_def map_of_table_filter)

lemma storePatches_get:
  "table_get (patches (storePatches p ip s)) k =
     (if k = patchIndex s + 1 then Some \<lparr> patch = p, inversePatch = ip, index = patchIndex s + 1 \<rparr>
      else if patchIndex s < k then None
      else if snd (patchMinMaxIndex s) - fst (patchMinMaxIndex s) + 1 > MAX_PATCHES
              \<and> k \<le> snd (patchMinMaxIndex s) - MAX_PATCHES then None
      else table_get (patches s) k)"
  by (simp add: storePatches_def Let_def table_get_def map_of_table_put map_of_delete_above
      map_of_delete_belowOrEqual)

lemma table_get_keys: "table_get t k \<noteq> None \<longleftrightarrow> k \<in> set (table_keys t)"
  by (simp add: table_get_def table_keys_def map_of_eq_None_iff)

lemma history_inv_entry:
  assumes "history_inv s" and "fst (patchMinMaxIndex s) \<le> k" and "k < snd (patchMinMaxIndex s)"
  shows "\<exists>e. table_get (patches s) k = Some e"
proof -
  from assms have "k \<in> set (table_keys (patches s))"
    by (simp add: history_inv_def Let_def)
  then show ?thesis using table_get_keys [of "patches s" k] by auto
qed

lemma set_getChangedFileIds_aux:
  "set (fold (\<lambda>p ids. if path0 p \<in> set ids then ids else ids @ [path0 p]) ps acc) = set acc \<union> path0 ` set ps"
  by (induction ps arbitrary: acc) auto

lemma set_getChangedFileIds: "set (getChangedFileIds ps) = path0 ` set ps"
  by (simp add: getChangedFileIds_def set_getChangedFileIds_aux)

lemma map_of_applyPatch1:
  "map_of (applyPatch1 p S) k = (if k = path0 p then (case p of Remove _ \<Rightarrow> None | Add _ v \<Rightarrow> Some v | Replace _ v \<Rightarrow> Some v) else map_of S k)"
  by (cases p) (simp_all add: update_conv' delete_conv')

lemma map_of_applyPatches_other:
  "k \<notin> path0 ` set ps \<Longrightarrow> map_of (applyPatches S ps) k = map_of S k"
  unfolding applyPatches_def
  by (induction ps arbitrary: S) (simp_all add: map_of_applyPatch1)

lemma map_of_fold_put:
  "map_of (fold (\<lambda>id fs. case map_of N id of Some f \<Rightarrow> AList.update id f fs | None \<Rightarrow> fs) ids fs) k =
     (if k \<in> set ids \<and> map_of N k \<noteq> None then map_of N k else map_of fs k)"
  by (induction ids arbitrary: fs) (auto simp: update_conv' split: option.splits)

lemma map_of_fold_delete:
  "map_of (fold AList.delete ids fs) k = (if k \<in> set ids then None else map_of fs k)"
  by (induction ids arbitrary: fs) (auto simp: delete_conv')

lemma map_of_commitFileStateChange:
  "map_of (files (commitFileStateChange N p s)) k =
     (if k \<in> path0 ` set p then map_of N k else map_of (files s) k)"
  by (auto simp: commitFileStateChange_def Let_def map_of_fold_delete map_of_fold_put
      set_getChangedFileIds)

lemma map_of_applyPatch:
  "map_of (files (applyPatch p s)) = map_of (applyPatches (files s) p)"
  by (rule ext) (simp add: applyPatch_def map_of_commitFileStateChange map_of_applyPatches_other)

lemma applyPatch_history [simp]:
  "patches (applyPatch p s) = patches s" "patchIndex (applyPatch p s) = patchIndex s"
  by (simp_all add: applyPatch_def commitFileStateChange_def Let_def)


lemma patchMinMaxIndex_cong:
  "patches s' = patches s \<Longrightarrow> patchMinMaxIndex s' = patchMinMaxIndex s"
  by (simp add: patchMinMaxIndex_def)

lemma undo_step:
  assumes "history_inv s" and "canUndo s"
  shows "\<exists>e. table_get (patches s) (patchIndex s) = Some e \<and>
             undo s = (applyPatch (inversePatch e) s)\<lparr> patchIndex := patchIndex s - 1 \<rparr>"
proof -
  from assms have "fst (patchMinMaxIndex s) \<le> patchIndex s" "patchIndex s < snd (patchMinMaxIndex s)"
    by (simp_all add: canUndo_def history_inv_def Let_def)
  from history_inv_entry [OF assms(1) this] obtain e
    where "table_get (patches s) (patchIndex s) = Some e" ..
  then show ?thesis using assms(2) by (simp add: undo_def)
qed

lemma redo_step:
  assumes "history_inv s" and "canRedo s"
  shows "\<exists>e. table_get (patches s) (patchIndex s + 1) = Some e \<and>
             redo s = (applyPatch (patch e) s)\<lparr> patchIndex := patchIndex s + 1 \<rparr>"
proof -
  from assms have "fst (patchMinMaxIndex s) \<le> patchIndex s + 1"
    "patchIndex s + 1 < snd (patchMinMaxIndex s)"
    by (simp_all add: canRedo_def history_inv_def Let_def)
  from history_inv_entry [OF assms(1) this] obtain e
    where "table_get (patches s) (patchIndex s + 1) = Some e" ..
  then show ?thesis using assms(2) by (simp add: redo_def)
qed

lemma undo_history:
  assumes "history_inv s" and "canUndo s"
  shows "patches (undo s) = patches s" and "patchIndex (undo s) = patchIndex s - 1"
    and "history_inv (undo s)"
proof -
  from undo_step [OF assms] obtain e
    where "table_get (patches s) (patchIndex s) = Some e"
      and u: "undo s = (applyPatch (inversePatch e) s)\<lparr> patchIndex := patchIndex s - 1 \<rparr>"
    by blast
  show p: "patches (undo s) = patches s" and c: "patchIndex (undo s) = patchIndex s - 1"
    by (simp_all add: u)
  from assms show "history_inv (undo s)"
    by (simp add: history_inv_def Let_def patchMinMaxIndex_cong [OF p] p c canUndo_def)
qed

lemma undo_funpow:
  assumes "history_inv s" and "int n \<le> patchIndex s - fst (patchMinMaxIndex s) + 1"
  shows "patches ((undo ^^ n) s) = patches s \<and> patchIndex ((undo ^^ n) s) = patchIndex s - int n
           \<and> history_inv ((undo ^^ n) s)"
  using assms(2)
proof (induction n)
  case 0
  show ?case using assms(1) by simp
next
  case (Suc n)
  then have ih: "patches ((undo ^^ n) s) = patches s" "patchIndex ((undo ^^ n) s) = patchIndex s - int n"
    "history_inv ((undo ^^ n) s)" by simp_all
  have cu: "canUndo ((undo ^^ n) s)"
    using Suc.prems by (simp add: canUndo_def ih patchMinMaxIndex_cong [OF ih(1)])
  show ?case
    using undo_history [OF ih(3) cu] ih by simp
qed

lemma delete_above_length:
  assumes "history_inv s"
  shows "int (length (delete_above (patchIndex s) (patches s))) = patchIndex s - fst (patchMinMaxIndex s) + 1"
proof -
  from assms have keys: "map fst (patches s) = [fst (patchMinMaxIndex s)..snd (patchMinMaxIndex s) - 1]"
    and b: "fst (patchMinMaxIndex s) - 1 \<le> patchIndex s" "patchIndex s \<le> snd (patchMinMaxIndex s) - 1"
    by (simp_all add: history_inv_def Let_def table_keys_def)
  have "length (delete_above (patchIndex s) (patches s)) = length (map fst (delete_above (patchIndex s) (patches s)))"
    by simp
  also have "map fst (delete_above (patchIndex s) (patches s)) = [fst (patchMinMaxIndex s)..patchIndex s]"
    using b by (simp add: delete_above_def keys_filter keys filter_upto_above min_def)
  finally show ?thesis using b by simp
qed

lemma history_inv_length:
  assumes "history_inv s"
  shows "int (length (patches s)) = snd (patchMinMaxIndex s) - fst (patchMinMaxIndex s)"
proof (cases "patches s = []")
  case True
  then show ?thesis by (simp add: patchMinMaxIndex_def table_keys_def)
next
  case False
  have "length (patches s) = length (table_keys (patches s))" by (simp add: table_keys_def)
  moreover from assms have "map fst (patches s) = [fst (patchMinMaxIndex s)..snd (patchMinMaxIndex s) - 1]"
    by (simp add: history_inv_def Let_def table_keys_def)
  with False have "fst (patchMinMaxIndex s) \<le> snd (patchMinMaxIndex s) - 1"
    by (cases "fst (patchMinMaxIndex s) \<le> snd (patchMinMaxIndex s) - 1") auto
  ultimately show ?thesis using assms by (simp add: history_inv_def Let_def)
qed

text \<open>
  Claim C2. In a state that satisfies the invariant of the log, \<open>undo\<close> does nothing when
  \<open>canUndo\<close> is false; otherwise the log has an entry at the cursor, the documents
  become the result of applying its inverse patch to the live document state, the log is
  unchanged and the cursor decreases by one. Symmetrically \<open>redo\<close> does nothing when
  \<open>canRedo\<close> is false, and otherwise applies the forward patch of the entry at
  \<open>cursor + 1\<close> and increases the cursor by one.
\<close>

theorem undo_redo_cursor:
  assumes "history_inv s"
  shows "(\<not> canUndo s \<longrightarrow> undo s = s) \<and>
         (canUndo s \<longrightarrow>
            (\<exists>e. table_get (patches s) (patchIndex s) = Some e \<and>
                 map_of (files (undo s)) = map_of (applyPatches (files s) (inversePatch e)) \<and>
                 patches (undo s) = patches s \<and>
                 patchIndex (undo s) = patchIndex s - 1)) \<and>
         (\<not> canRedo s \<longrightarrow> redo s = s) \<and>
         (canRedo s \<longrightarrow>
            (\<exists>e. table_get (patches s) (patchIndex s + 1) = Some e \<and>
                 map_of (files (redo s)) = map_of (applyPatches (files s) (patch e)) \<and>
                 patches (redo s) = patches s \<and>
                 patchIndex (redo s) = patchIndex s + 1))"
proof (intro conjI impI)
  assume "\<not> canUndo s" then show "undo s = s" by (simp add: undo_def)
next
  assume "\<not> canRedo s" then show "redo s = s" by (simp add: redo_def)
next
  assume "canUndo s"
  from undo_step [OF assms this] obtain e where e: "table_get (patches s) (patchIndex s) = Some e"
    and u: "undo s = (applyPatch (inversePatch e) s)\<lparr> patchIndex := patchIndex s - 1 \<rparr>" by blast
  have "map_of (files (undo s)) = map_of (applyPatches (files s) (inversePatch e))"
    by (simp add: u map_of_applyPatch)
  moreover have "patches (undo s) = patches s" "patchIndex (undo s) = patchIndex s - 1"
    by (simp_all add: u)
  ultimately show "\<exists>e. table_get (patches s) (patchIndex s) = Some e \<and>
                 map_of (files (undo s)) = map_of (applyPatches (files s) (inversePatch e)) \<and>
                 patches (undo s) = patches s \<and> patchIndex (undo s) = patchIndex s - 1"
    using e by blast
next
  assume "canRedo s"
  from redo_step [OF assms this] obtain e where e: "table_get (patches s) (patchIndex s + 1) = Some e"
    and u: "redo s = (applyPatch (patch e) s)\<lparr> patchIndex := patchIndex s + 1 \<rparr>" by blast
  have "map_of (files (redo s)) = map_of (applyPatches (files s) (patch e))"
    by (simp add: u map_of_applyPatch)
  moreover have "patches (redo s) = patches s" "patchIndex (redo s) = patchIndex s + 1"
    by (simp_all add: u)
  ultimately show "\<exists>e. table_get (patches s) (patchIndex s + 1) = Some e \<and>
                 map_of (files (redo s)) = map_of (applyPatches (files s) (patch e)) \<and>
                 patches (redo s) = patches s \<and> patchIndex (redo s) = patchIndex s + 1"
    using e by blast
qed

theorem undo_redo_cursor_witness:
  "history_inv oneEdit \<and> canUndo oneEdit \<and> \<not> canRedo oneEdit \<and>
   map_of (files (undo oneEdit)) = Map.empty \<and> patchIndex (undo oneEdit) = - 1 \<and>
   patches (undo oneEdit) = patches oneEdit \<and> redo oneEdit = oneEdit"
proof -
  have h: "history_inv oneEdit"
    by (simp add: history_inv_def oneEdit_def patchMinMaxIndex_def table_keys_def MAX_PATCHES_def)
  have u: "canUndo oneEdit" and r: "\<not> canRedo oneEdit"
    by (simp_all add: canUndo_def canRedo_def oneEdit_def patchMinMaxIndex_def table_keys_def)
  note t = undo_redo_cursor [OF h]
  from t r have re: "redo oneEdit = oneEdit" by blast
  from t u obtain e where e: "table_get (patches oneEdit) (patchIndex oneEdit) = Some e"
    and f: "map_of (files (undo oneEdit)) = map_of (applyPatches (files oneEdit) (inversePatch e))"
    and 3: "patches (undo oneEdit) = patches oneEdit"
    and c: "patchIndex (undo oneEdit) = patchIndex oneEdit - 1"
    by blast
  from e have "inversePatch e = [Remove ''gpx-0'']"
    by (auto simp: oneEdit_def table_get_def)
  with f have 1: "map_of (files (undo oneEdit)) = Map.empty"
    by (simp add: oneEdit_def applyPatches_def)
  from c have 2: "patchIndex (undo oneEdit) = - 1"
    by (simp add: oneEdit_def)
  from h u r 1 2 3 re show ?thesis by (intro conjI)
qed

lemma table_get_fullLog:
  "0 \<le> c \<Longrightarrow> c \<le> 99 \<Longrightarrow>
     table_get (patches fullLog) c = Some \<lparr> patch = [], inversePatch = [], index = c \<rparr>"
proof -
  assume "0 \<le> c" "c \<le> 99"
  then have "c \<in> set [0..99]" by simp
  then have "map_of (map (\<lambda>i. (i, \<lparr> patch = [], inversePatch = [], index = i \<rparr>)) [0..99]) c =
               Some \<lparr> patch = [], inversePatch = [], index = c \<rparr>"
    by (simp add: map_of_map_restrict del: upto.simps)
  then show ?thesis by (simp add: table_get_def fullLog_def del: upto.simps)
qed

lemma undo_fullLog:
  assumes "0 \<le> c" "c \<le> 99"
  shows "undo (fullLog\<lparr> patchIndex := c \<rparr>) = fullLog\<lparr> patchIndex := c - 1 \<rparr>"
proof -
  have mm: "patchMinMaxIndex (fullLog\<lparr> patchIndex := c \<rparr>) = (0, 100)"
    by (simp add: fullLog_def patchMinMaxIndex_def table_keys_def comp_def)
  have cu: "canUndo (fullLog\<lparr> patchIndex := c \<rparr>)"
    using assms by (simp add: canUndo_def mm)
  have ap: "applyPatch [] s = s" for s :: "nat AppState"
    by (simp add: applyPatch_def applyPatches_def commitFileStateChange_def getChangedFileIds_def)
  show ?thesis
    using table_get_fullLog [OF assms] by (simp add: undo_def cu ap)
qed

lemma undo_funpow_fullLog:
  "k \<le> 100 \<Longrightarrow> (undo ^^ k) fullLog = fullLog\<lparr> patchIndex := 99 - int k \<rparr>"
proof (induction k)
  case 0
  show ?case by (simp add: fullLog_def)
next
  case (Suc k)
  then have ih: "(undo ^^ k) fullLog = fullLog\<lparr> patchIndex := 99 - int k \<rparr>" by simp
  from Suc.prems have b: "0 \<le> 99 - int k" "99 - int k \<le> 99" by simp_all
  show ?case using undo_fullLog [OF b] by (simp add: ih algebra_simps)
qed

lemma halfUndone_reached: "(undo ^^ 49) fullLog = halfUndone"
  using undo_funpow_fullLog [of 49] by (simp add: halfUndone_def)

text \<open>
  Claim C3, on the code. In a state that satisfies the invariant of the log, after
  \<open>storePatches\<close> the keys of the log are a range that ends at \<open>cursor + 1\<close>, the new
  cursor, where the new entry is stored; no entry remains above it (the redo tail is
  deleted), the log holds at most \<open>MAX_PATCHES\<close> entries, every entry that remains below
  the new one is unchanged, and the invariant holds again. The range starts at the old
  low end \<open>min\<close>, or at \<open>min + 1\<close>: the entry at \<open>min\<close> is deleted whenever the log held
  \<open>MAX_PATCHES\<close> entries when the call started (and the cursor was not below \<open>min\<close>),
  because the bounds of the log are read as they were before the deletion of the redo
  tail; this happens also when the entries kept up to the cursor and the new one are
  fewer than \<open>MAX_PATCHES\<close>. Then the undos from the new cursor stop at \<open>min\<close>, where
  \<open>canUndo\<close> is false although the edit at \<open>min\<close> had been made.
\<close>

theorem storePatches_prunes_full_log:
  assumes "history_inv s"
  shows "table_keys (patches (storePatches p ip s)) =
           [(if MAX_PATCHES \<le> snd (patchMinMaxIndex s) - fst (patchMinMaxIndex s) \<and>
                fst (patchMinMaxIndex s) \<le> patchIndex s
             then fst (patchMinMaxIndex s) + 1 else fst (patchMinMaxIndex s)) .. patchIndex s + 1] \<and>
         int (length (patches (storePatches p ip s))) \<le> MAX_PATCHES \<and>
         (\<forall>k \<in> set (table_keys (patches (storePatches p ip s))). k \<le> patchIndex s \<longrightarrow>
            table_get (patches (storePatches p ip s)) k = table_get (patches s) k) \<and>
         table_get (patches (storePatches p ip s)) (patchIndex s + 1) =
            Some \<lparr> patch = p, inversePatch = ip, index = patchIndex s + 1 \<rparr> \<and>
         patchIndex (storePatches p ip s) = patchIndex s + 1 \<and>
         history_inv (storePatches p ip s) \<and>
         (MAX_PATCHES \<le> snd (patchMinMaxIndex s) - fst (patchMinMaxIndex s) \<and>
          fst (patchMinMaxIndex s) \<le> patchIndex s \<longrightarrow>
            table_get (patches s) (fst (patchMinMaxIndex s)) \<noteq> None \<and>
            table_get (patches (storePatches p ip s)) (fst (patchMinMaxIndex s)) = None \<and>
            patchIndex ((undo ^^ nat (patchIndex s - fst (patchMinMaxIndex s) + 1)) (storePatches p ip s)) =
              fst (patchMinMaxIndex s) \<and>
            \<not> canUndo ((undo ^^ nat (patchIndex s - fst (patchMinMaxIndex s) + 1)) (storePatches p ip s)))"
proof -
  let ?s' = "storePatches p ip s"
  let ?mn = "fst (patchMinMaxIndex s)" and ?mx = "snd (patchMinMaxIndex s)"
  let ?lo = "if MAX_PATCHES \<le> ?mx - ?mn \<and> ?mn \<le> patchIndex s then ?mn + 1 else ?mn"
  from assms have b: "?mn - 1 \<le> patchIndex s" "patchIndex s \<le> ?mx - 1" "?mx - ?mn \<le> MAX_PATCHES"
    by (simp_all add: history_inv_def Let_def)
  have 1: "table_keys (patches ?s') = [?lo .. patchIndex s + 1]"
  proof (cases "?mn \<le> patchIndex s")
    case True
    then show ?thesis
      unfolding storePatches_keys [OF assms] using b by (auto simp: min_def)
  next
    case False
    with b have e: "patchIndex s + 1 = ?mn" by simp
    show ?thesis
      unfolding storePatches_keys [OF assms] using False unfolding e by (simp add: min_def)
  qed
  have 2: "int (length (patches ?s')) \<le> MAX_PATCHES" by (rule storePatches_length [OF assms])
  have 3: "\<forall>k \<in> set (table_keys (patches ?s')). k \<le> patchIndex s \<longrightarrow>
            table_get (patches ?s') k = table_get (patches s) k"
    unfolding 1 using b by (auto simp: storePatches_get)
  have 4: "table_get (patches ?s') (patchIndex s + 1) =
            Some \<lparr> patch = p, inversePatch = ip, index = patchIndex s + 1 \<rparr>"
    by (simp add: storePatches_get)
  have 5: "patchIndex ?s' = patchIndex s + 1" by (rule storePatches_patchIndex)
  have 6: "history_inv ?s'" by (rule storePatches_inv [OF assms])
  have 7: "table_get (patches s) ?mn \<noteq> None \<and> table_get (patches ?s') ?mn = None \<and>
           patchIndex ((undo ^^ nat (patchIndex s - ?mn + 1)) ?s') = ?mn \<and>
           \<not> canUndo ((undo ^^ nat (patchIndex s - ?mn + 1)) ?s')"
    if full: "MAX_PATCHES \<le> ?mx - ?mn" and ge: "?mn \<le> patchIndex s"
  proof -
    from full b have sz: "?mx - ?mn = 100" by (simp add: MAX_PATCHES_def)
    have keys': "table_keys (patches ?s') = [?mn + 1..patchIndex s + 1]"
      unfolding 1 using full ge by simp
    have mm': "patchMinMaxIndex ?s' = (?mn + 1, patchIndex s + 2)"
      using ge by (simp add: patchMinMaxIndex_def keys' upto_rec2 [of "?mn + 1" "patchIndex s + 1"] Let_def)
    have le: "int (nat (patchIndex s - ?mn + 1)) \<le> patchIndex ?s' - fst (patchMinMaxIndex ?s') + 1"
      using ge by (simp add: mm' 5)
    have u: "patches ((undo ^^ nat (patchIndex s - ?mn + 1)) ?s') = patches ?s'"
      "patchIndex ((undo ^^ nat (patchIndex s - ?mn + 1)) ?s') = patchIndex ?s' - int (nat (patchIndex s - ?mn + 1))"
      using undo_funpow [OF 6 le] by simp_all
    have a: "table_get (patches s) ?mn \<noteq> None"
      using history_inv_entry [OF assms, of ?mn] sz by auto
    have c: "table_get (patches ?s') ?mn = None"
      using sz ge by (simp add: storePatches_get MAX_PATCHES_def)
    have d: "patchIndex ((undo ^^ nat (patchIndex s - ?mn + 1)) ?s') = ?mn"
      using ge by (simp add: u 5)
    have e: "\<not> canUndo ((undo ^^ nat (patchIndex s - ?mn + 1)) ?s')"
      unfolding canUndo_def d patchMinMaxIndex_cong [OF u(1)] mm' by simp
    from a c d e show ?thesis by (intro conjI)
  qed
  from 1 2 3 4 5 6 7 show ?thesis by (intro conjI impI) simp_all
qed

theorem storePatches_prunes_full_log_witness:
  "(undo ^^ 49) fullLog = halfUndone \<and>
   history_inv halfUndone \<and>
   table_keys (patches halfUndone) = [0..99] \<and>
   patchIndex halfUndone = 50 \<and>
   table_keys (patches (storePatches [] [] halfUndone)) = [1..51] \<and>
   table_get (patches halfUndone) 0 \<noteq> None \<and>
   table_get (patches (storePatches [] [] halfUndone)) 0 = None \<and>
   patchIndex ((undo ^^ 51) (storePatches [] [] halfUndone)) = 0 \<and>
   \<not> canUndo ((undo ^^ 51) (storePatches [] [] halfUndone))"
proof -
  have k: "table_keys (patches halfUndone) = [0..99]"
    by (simp add: halfUndone_def fullLog_def table_keys_def comp_def)
  have mm: "patchMinMaxIndex halfUndone = (0, 100)"
    by (simp add: halfUndone_def fullLog_def patchMinMaxIndex_def table_keys_def comp_def)
  have i: "patchIndex halfUndone = 50" by (simp add: halfUndone_def)
  have h: "history_inv halfUndone"
    by (simp add: history_inv_def mm MAX_PATCHES_def k i)
  have n: "nat (50 - 0 + 1) = 51" by simp
  note t = storePatches_prunes_full_log [OF h, of "[]" "[]", unfolded mm fst_conv snd_conv i]
  from t h k i show ?thesis by (simp add: MAX_PATCHES_def halfUndone_reached)
qed

section \<open>Fresh document identifiers\<close>

declare getFileIds_loop.simps [simp del]

lemma getFileIds_loop_props:
  assumes "length ids \<le> n" "distinct ids" "set ids \<inter> set observers = {}"
    "\<forall>x\<in>set ids. \<exists>j<i. x = gpx_id j"
  shows "length (getFileIds_loop observers n i ids) = n \<and>
         distinct (getFileIds_loop observers n i ids) \<and>
         set (getFileIds_loop observers n i ids) \<inter> set observers = {}"
  using assms
proof (induction observers n i ids rule: getFileIds_loop.induct)
  case (1 observers n i ids)
  show ?case
  proof (cases "length ids < n")
    case False
    with "1.prems" show ?thesis by (simp add: getFileIds_loop.simps [of observers n i ids])
  next
    case True
    show ?thesis
    proof (cases "gpx_id i \<in> set observers")
      case False
      have new: "gpx_id i \<notin> set ids"
        using "1.prems"(4) by (auto dest: gpx_id_inj)
      have "length (getFileIds_loop observers n (i + 1) (ids @ [gpx_id i])) = n \<and>
         distinct (getFileIds_loop observers n (i + 1) (ids @ [gpx_id i])) \<and>
         set (getFileIds_loop observers n (i + 1) (ids @ [gpx_id i])) \<inter> set observers = {}"
      proof (rule "1.IH"(1) [OF True refl False])
        show "length (ids @ [gpx_id i]) \<le> n" using True by simp
        show "distinct (ids @ [gpx_id i])" using "1.prems"(2) new by simp
        show "set (ids @ [gpx_id i]) \<inter> set observers = {}" using "1.prems"(3) False by simp
        show "\<forall>x\<in>set (ids @ [gpx_id i]). \<exists>j<i + 1. x = gpx_id j"
          using "1.prems"(4) by (auto intro: less_SucI)
      qed
      with True False show ?thesis by (simp add: getFileIds_loop.simps [of observers n i ids])
    next
      case inobs: True
      have "length (getFileIds_loop observers n (i + 1) ids) = n \<and>
         distinct (getFileIds_loop observers n (i + 1) ids) \<and>
         set (getFileIds_loop observers n (i + 1) ids) \<inter> set observers = {}"
      proof (rule "1.IH"(2) [OF True refl])
        show "\<not> gpx_id i \<notin> set observers" using inobs by simp
        show "\<forall>x\<in>set ids. \<exists>j<i + 1. x = gpx_id j"
          using "1.prems"(4) by (auto intro: less_SucI)
      qed (use "1.prems" in auto)
      with True inobs show ?thesis by (simp add: getFileIds_loop.simps [of observers n i ids])
    qed
  qed
qed

lemma getFileIds_fresh:
  "length (getFileIds n observers) = n \<and> distinct (getFileIds n observers) \<and>
   set (getFileIds n observers) \<inter> set observers = {}"
  unfolding getFileIds_def by (rule getFileIds_loop_props) simp_all

section \<open>Transactions and their patch pairs\<close>

lemma draft_inv_create: "draft_inv S (createDraft S)"
  by (simp add: draft_inv_def createDraft_def)

lemma draft_inv_set: "draft_inv S d \<Longrightarrow> draft_inv S (draft_set k v d)"
  by (simp add: draft_inv_def draft_set_def update_conv' distinct_update del: map_of_eq_Some_iff)

lemma draft_inv_update: "draft_inv S d \<Longrightarrow> draft_inv S (draft_update k f d)"
  by (simp add: draft_inv_def draft_update_def update_conv' distinct_update split: option.split
      del: map_of_eq_Some_iff)

lemma draft_inv_delete: "draft_inv S d \<Longrightarrow> draft_inv S (draft_delete k d)"
  unfolding draft_inv_def draft_delete_def
  by (auto simp: update_conv' delete_conv' distinct_update distinct_delete simp del: map_of_eq_Some_iff)

lemma map_of_fold_update_False:
  "map_of (fold (\<lambda>k a. AList.update k False a) ks acc) k =
     (if k \<in> set ks then Some False else map_of acc k)"
  by (induction ks arbitrary: acc) (auto simp: update_conv')

lemma distinct_fold_update_False:
  "distinct (map fst acc) \<Longrightarrow> distinct (map fst (fold (\<lambda>k a. AList.update k False a) ks acc))"
  by (induction ks arbitrary: acc) (auto simp: distinct_update)

lemma draft_inv_clear:
  assumes "draft_inv S d"
  shows "draft_inv S (draft_clear d)"
proof -
  from assms have b: "base d = S" by (simp add: draft_inv_def)
  have m: "map_of (assigned (draft_clear d)) k = (if k \<in> set (map fst S) then Some False else None)" for k
    by (simp add: draft_clear_def map_of_fold_update_False b)
  have n: "k \<notin> set (map fst S) \<Longrightarrow> map_of S k = None" for k
    by (simp add: map_of_eq_None_iff)
  have y: "k \<in> set (map fst S) \<Longrightarrow> map_of S k \<noteq> None" for k
    by (simp add: map_of_eq_None_iff)
  have c: "copy (draft_clear d) = []" "base (draft_clear d) = S"
    by (simp_all add: draft_clear_def b)
  have "distinct (map fst (assigned (draft_clear d)))"
    by (simp add: draft_clear_def distinct_fold_update_False)
  then show ?thesis
    unfolding draft_inv_def m c using n y by (simp del: map_of_eq_Some_iff)
qed

lemma draft_run_inv: "draft_run d d' \<Longrightarrow> draft_inv S d \<Longrightarrow> draft_inv S d'"
  by (induction rule: draft_run.induct)
     (auto intro: draft_inv_set draft_inv_delete draft_inv_clear draft_inv_update)

lemma apply_fst_patchesOf:
  "map_of (fold applyPatch1 (map fst (patchesOf B C (k0, a))) T) k =
     (if k = k0 then fwd_effect B C k0 a (map_of T k0) else map_of T k)"
  by (auto simp: patchesOf_def fwd_effect_def Let_def update_conv' delete_conv' split: option.splits)

lemma apply_snd_patchesOf:
  "map_of (fold applyPatch1 (map snd (patchesOf B C (k0, a))) T) k =
     (if k = k0 then inv_effect B C k0 a (map_of T k0) else map_of T k)"
  by (auto simp: patchesOf_def inv_effect_def Let_def update_conv' delete_conv' split: option.splits)

lemma apply_fst_all:
  "distinct (map fst as) \<Longrightarrow>
   map_of (fold applyPatch1 (map fst (concat (map (patchesOf B C) as))) T) k =
     (case map_of as k of None \<Rightarrow> map_of T k | Some a \<Rightarrow> fwd_effect B C k a (map_of T k))"
proof (induction as arbitrary: T k)
  case Nil
  show ?case by simp
next
  case (Cons x as)
  obtain k0 a where x: "x = (k0, a)" by (cases x)
  from Cons.prems x have d: "distinct (map fst as)" and nin: "map_of as k0 = None"
    by (auto simp: map_of_eq_None_iff)
  show ?case
  proof (cases "k = k0")
    case True
    with nin show ?thesis by (simp add: x Cons.IH [OF d] apply_fst_patchesOf)
  next
    case False
    then show ?thesis by (simp add: x Cons.IH [OF d] apply_fst_patchesOf split: option.split)
  qed
qed

lemma apply_snd_all:
  "distinct (map fst as) \<Longrightarrow>
   map_of (fold applyPatch1 (map snd (concat (map (patchesOf B C) as))) T) k =
     (case map_of as k of None \<Rightarrow> map_of T k | Some a \<Rightarrow> inv_effect B C k a (map_of T k))"
proof (induction as arbitrary: T k)
  case Nil
  show ?case by simp
next
  case (Cons x as)
  obtain k0 a where x: "x = (k0, a)" by (cases x)
  from Cons.prems x have d: "distinct (map fst as)" and nin: "map_of as k0 = None"
    by (auto simp: map_of_eq_None_iff)
  show ?case
  proof (cases "k = k0")
    case True
    with nin show ?thesis by (simp add: x Cons.IH [OF d] apply_snd_patchesOf)
  next
    case False
    then show ?thesis by (simp add: x Cons.IH [OF d] apply_snd_patchesOf split: option.split)
  qed
qed

lemma draft_forward:
  assumes "draft_inv S d"
  shows "map_of (applyPatches S (map fst (concat (map (patchesOf (base d) (copy d)) (assigned d)))))
           = map_of (copy d)"
proof
  fix k
  from assms have b: "base d = S" and dist: "distinct (map fst (assigned d))"
    and n: "map_of (assigned d) k = None \<Longrightarrow> map_of (copy d) k = map_of S k"
    and t: "map_of (assigned d) k = Some True \<Longrightarrow> map_of (copy d) k \<noteq> None"
    and f: "map_of (assigned d) k = Some False \<Longrightarrow> map_of (copy d) k = None \<and> map_of S k \<noteq> None"
    by (simp_all add: draft_inv_def del: map_of_eq_Some_iff)
  show "map_of (applyPatches S (map fst (concat (map (patchesOf (base d) (copy d)) (assigned d))))) k
           = map_of (copy d) k"
  proof (cases "map_of (assigned d) k")
    case None
    with n show ?thesis by (simp add: applyPatches_def apply_fst_all [OF dist])
  next
    case (Some a)
    show ?thesis
    proof (cases a)
      case True
      with Some have st: "map_of (assigned d) k = Some True" by simp
      from t [OF st] obtain v where "map_of (copy d) k = Some v" by blast
      with st show ?thesis by (simp add: applyPatches_def apply_fst_all [OF dist] b fwd_effect_def)
    next
      case False
      with Some have sf: "map_of (assigned d) k = Some False" by simp
      from f [OF sf] sf show ?thesis
        by (auto simp: applyPatches_def apply_fst_all [OF dist] b fwd_effect_def)
    qed
  qed
qed

lemma draft_backward:
  assumes "draft_inv S d"
  shows "map_of (applyPatches (copy d) (map snd (concat (map (patchesOf (base d) (copy d)) (assigned d)))))
           = map_of S"
proof
  fix k
  from assms have b: "base d = S" and dist: "distinct (map fst (assigned d))"
    and n: "map_of (assigned d) k = None \<Longrightarrow> map_of (copy d) k = map_of S k"
    and t: "map_of (assigned d) k = Some True \<Longrightarrow> map_of (copy d) k \<noteq> None"
    and f: "map_of (assigned d) k = Some False \<Longrightarrow> map_of (copy d) k = None \<and> map_of S k \<noteq> None"
    by (simp_all add: draft_inv_def del: map_of_eq_Some_iff)
  show "map_of (applyPatches (copy d) (map snd (concat (map (patchesOf (base d) (copy d)) (assigned d))))) k
           = map_of S k"
  proof (cases "map_of (assigned d) k")
    case None
    with n show ?thesis by (simp add: applyPatches_def apply_snd_all [OF dist])
  next
    case (Some a)
    show ?thesis
    proof (cases a)
      case True
      with Some have st: "map_of (assigned d) k = Some True" by simp
      from t [OF st] obtain v where v: "map_of (copy d) k = Some v" by blast
      with st show ?thesis by (simp add: applyPatches_def apply_snd_all [OF dist] b inv_effect_def)
    next
      case False
      with Some have sf: "map_of (assigned d) k = Some False" by simp
      from f [OF sf] sf show ?thesis
        by (auto simp: applyPatches_def apply_snd_all [OF dist] b inv_effect_def)
    qed
  qed
qed

lemma applyPatches_cong:
  "map_of S = map_of T \<Longrightarrow> map_of (applyPatches S ps) = map_of (applyPatches T ps)"
  unfolding applyPatches_def
proof (induction ps arbitrary: S T)
  case Nil
  then show ?case by simp
next
  case (Cons p ps)
  have e: "map_of (applyPatch1 p S) = map_of (applyPatch1 p T)"
    using Cons.prems by (cases p) (simp_all add: update_conv' delete_conv')
  show ?case using Cons.IH [OF e] by simp
qed


lemma commit_history [simp]:
  "patches (commitFileStateChange N p s) = patches s"
  "patchIndex (commitFileStateChange N p s) = patchIndex s"
  by (simp_all add: commitFileStateChange_def Let_def)

lemma storePatches_files [simp]: "files (storePatches p ip s) = files s"
  by (simp add: storePatches_def Let_def)

lemma commit_round_trip:
  assumes inv: "draft_inv (files s) d"
  defines "ps \<equiv> concat (map (patchesOf (base d) (copy d)) (assigned d))"
  shows "round_trip s (commitFileStateChange (copy d) (map fst ps) (storePatches (map fst ps) (map snd ps) s))"
proof -
  let ?p = "map fst ps" and ?ip = "map snd ps"
  let ?s' = "commitFileStateChange (copy d) ?p (storePatches ?p ?ip s)"
  have fwd: "map_of (applyPatches (files s) ?p) = map_of (copy d)"
    unfolding ps_def by (rule draft_forward [OF inv])
  have bwd: "map_of (applyPatches (copy d) ?ip) = map_of (files s)"
    unfolding ps_def by (rule draft_backward [OF inv])
  have f': "map_of (files ?s') = map_of (copy d)"
  proof
    fix k
    show "map_of (files ?s') k = map_of (copy d) k"
    proof (cases "k \<in> path0 ` set ?p")
      case True
      then show ?thesis by (simp add: map_of_commitFileStateChange)
    next
      case False
      then have "map_of (files ?s') k = map_of (files s) k"
        by (simp add: map_of_commitFileStateChange)
      also from False have "\<dots> = map_of (applyPatches (files s) ?p) k"
        by (simp add: map_of_applyPatches_other)
      finally show ?thesis by (simp add: fwd)
    qed
  qed
  let ?e = "\<lparr> patch = ?p, inversePatch = ?ip, index = patchIndex s + 1 \<rparr>"
  have e: "table_get (patches ?s') (patchIndex ?s') = Some ?e"
    by (simp add: storePatches_patchIndex storePatches_get)
  have 1: "map_of (applyPatches (files s) (patch ?e)) = map_of (files ?s')"
    by (simp add: fwd f')
  have 2: "map_of (applyPatches (files ?s') (inversePatch ?e)) = map_of (files s)"
    using applyPatches_cong [OF f', of ?ip] by (simp add: bwd)
  have 3: "map_of (applyPatches (applyPatches (files ?s') (inversePatch ?e)) (patch ?e)) = map_of (files ?s')"
    using applyPatches_cong [OF 2, of ?p] by (simp add: fwd f')
  from e 1 2 3 show ?thesis unfolding round_trip_def by blast
qed

lemma finishDraft_round_trip:
  assumes "draft_inv (files s) d"
  shows "case finishDraft d of
           (newFileState, p, ip) \<Rightarrow> round_trip s (commitFileStateChange newFileState p (storePatches p ip s))"
  using commit_round_trip [OF assms] by (simp add: finishDraft_def Let_def)

lemma applyGlobal_round_trip:
  assumes "applyGlobal callback s = Some s'"
    and "\<And>d'. callback (createDraft (files s)) = Some d' \<Longrightarrow> draft_inv (files s) d'"
  shows "round_trip s s'"
proof -
  from assms(1) obtain d' where d': "callback (createDraft (files s)) = Some d'"
    by (auto simp: applyGlobal_def produceWithPatches_def split: option.splits)
  from finishDraft_round_trip [OF assms(2) [OF d']] assms(1) d' show ?thesis
    by (auto simp: applyGlobal_def produceWithPatches_def split: prod.splits)
qed

lemma draft_run_trans: "draft_run d' d'' \<Longrightarrow> draft_run d d' \<Longrightarrow> draft_run d d''"
  by (induction rule: draft_run.induct) (auto intro: draft_run.intros)

lemma draft_run_mutate: "draft_mutate k f d = Some d' \<Longrightarrow> draft_run d d'"
  by (auto simp: draft_mutate_def split: option.splits intro: draft_run.intros)

lemma draft_run_forEachFile:
  "forEachFile fileIds callback d = Some d' \<Longrightarrow> draft_run d d'"
proof (induction fileIds arbitrary: d)
  case Nil
  then show ?case by (simp add: run_none)
next
  case (Cons a fileIds)
  from Cons.prems obtain d1 where m: "draft_mutate a callback d = Some d1"
    and r: "forEachFile fileIds callback d1 = Some d'"
    by (auto split: option.splits)
  from draft_run_trans [OF Cons.IH [OF r] draft_run_mutate [OF m]] show ?case .
qed

lemma draft_run_applyEach:
  "applyEach fileIds callbacks i d = Some d' \<Longrightarrow> draft_run d d'"
proof (induction fileIds arbitrary: i d)
  case Nil
  then show ?case by (simp add: run_none)
next
  case (Cons a fileIds)
  show ?case
  proof (cases "draft_get d a")
    case None
    with Cons show ?thesis by simp
  next
    case (Some f0)
    with Cons.prems obtain callback d1 where m: "draft_mutate a callback d = Some d1"
      and r: "applyEach fileIds callbacks (i + 1) d1 = Some d'"
      by (auto split: option.splits)
    from draft_run_trans [OF Cons.IH [OF r] draft_run_mutate [OF m]] show ?thesis .
  qed
qed

text \<open>
  Claim C1. Every transaction committed through \<open>applyGlobal\<close>, \<open>applyToFiles\<close> or
  \<open>applyEachToFilesAndGlobal\<close>, whose callback works on the draft through its interface,
  stores a pair \<open>(patch, inversePatch)\<close> in the log such that applying the patch to the
  old document state gives the new one, applying the inverse patch to the new state gives
  the old one back, and applying the inverse patch and then the patch ends in the new
  state again; states are compared by value.
\<close>

theorem transaction_round_trip:
  assumes "\<forall>d d'. callback d = Some d' \<longrightarrow> draft_run d d'"
  shows "(\<forall>s'. applyGlobal callback s = Some s' \<longrightarrow> round_trip s s') \<and>
         (\<forall>s'. applyToFiles fileIds fileCallback s = Some s' \<longrightarrow> round_trip s s') \<and>
         (\<forall>s'. applyEachToFilesAndGlobal fileIds callbacks callback s = Some s' \<longrightarrow> round_trip s s')"
proof (intro conjI allI impI)
  fix s'
  assume a: "applyGlobal callback s = Some s'"
  show "round_trip s s'"
  proof (rule applyGlobal_round_trip [OF a])
    fix d'
    assume "callback (createDraft (files s)) = Some d'"
    with assms have "draft_run (createDraft (files s)) d'" by blast
    from draft_run_inv [OF this draft_inv_create] show "draft_inv (files s) d'" .
  qed
next
  fix s'
  assume a: "applyToFiles fileIds fileCallback s = Some s'"
  then have a': "applyGlobal (forEachFile fileIds fileCallback) s = Some s'"
    by (simp add: applyToFiles_def applyGlobal_def)
  show "round_trip s s'"
  proof (rule applyGlobal_round_trip [OF a'])
    fix d'
    assume "forEachFile fileIds fileCallback (createDraft (files s)) = Some d'"
    from draft_run_inv [OF draft_run_forEachFile [OF this] draft_inv_create]
    show "draft_inv (files s) d'" .
  qed
next
  fix s'
  let ?cb = "\<lambda>draft. case applyEach fileIds callbacks 0 draft of None \<Rightarrow> None | Some d \<Rightarrow> callback d"
  assume a: "applyEachToFilesAndGlobal fileIds callbacks callback s = Some s'"
  then have a': "applyGlobal ?cb s = Some s'"
    by (simp add: applyEachToFilesAndGlobal_def applyGlobal_def)
  show "round_trip s s'"
  proof (rule applyGlobal_round_trip [OF a'])
    fix d'
    assume "?cb (createDraft (files s)) = Some d'"
    then obtain d where d: "applyEach fileIds callbacks 0 (createDraft (files s)) = Some d"
      and c: "callback d = Some d'"
      by (auto split: option.splits)
    from assms c have "draft_run d d'" by blast
    from draft_run_inv [OF draft_run_trans [OF this draft_run_applyEach [OF d]] draft_inv_create]
    show "draft_inv (files s) d'" .
  qed
qed

theorem transaction_round_trip_witness:
  "(\<forall>d. draft_run d (draft_set ''gpx-0'' (7::nat) d)) \<and>
   applyGlobal (\<lambda>d. Some (draft_set ''gpx-0'' (7::nat) d)) initialState =
     Some \<lparr> files = [(''gpx-0'', 7)],
            patches = [(0, \<lparr> patch = [Add ''gpx-0'' 7], inversePatch = [Remove ''gpx-0''], index = 0 \<rparr>)],
            patchIndex = 0 \<rparr> \<and>
   round_trip initialState
     \<lparr> files = [(''gpx-0'', 7::nat)],
       patches = [(0, \<lparr> patch = [Add ''gpx-0'' 7], inversePatch = [Remove ''gpx-0''], index = 0 \<rparr>)],
       patchIndex = 0 \<rparr>"
proof -
  have r: "\<forall>d. draft_run d (draft_set ''gpx-0'' (7::nat) d)"
    by (auto intro: run_set run_none)
  then have h: "\<forall>d d'. Some (draft_set ''gpx-0'' (7::nat) d) = Some d' \<longrightarrow> draft_run d d'"
    by auto
  have f: "applyGlobal (\<lambda>d. Some (draft_set ''gpx-0'' (7::nat) d)) initialState =
     Some \<lparr> files = [(''gpx-0'', 7)],
            patches = [(0, \<lparr> patch = [Add ''gpx-0'' 7], inversePatch = [Remove ''gpx-0''], index = 0 \<rparr>)],
            patchIndex = 0 \<rparr>"
    by (simp add: applyGlobal_def produceWithPatches_def finishDraft_def createDraft_def draft_set_def
        initialState_def patchesOf_def commitFileStateChange_def getChangedFileIds_def Let_def
        storePatches_def delete_above_def patchMinMaxIndex_def table_keys_def MAX_PATCHES_def)
  from transaction_round_trip [OF h, of initialState] r f show ?thesis by blast
qed

section \<open>The committed state of a transaction\<close>

lemma finishDraft_files:
  assumes "draft_inv (files s) d"
  shows "case finishDraft d of (newFileState, p, ip) \<Rightarrow>
           map_of (files (commitFileStateChange newFileState p (storePatches p ip s))) = map_of (copy d)"
proof -
  define ps where "ps = concat (map (patchesOf (base d) (copy d)) (assigned d))"
  let ?p = "map fst ps" and ?ip = "map snd ps"
  let ?s' = "commitFileStateChange (copy d) ?p (storePatches ?p ?ip s)"
  have fwd: "map_of (applyPatches (files s) ?p) = map_of (copy d)"
    unfolding ps_def by (rule draft_forward [OF assms])
  have "map_of (files ?s') k = map_of (copy d) k" for k
  proof (cases "k \<in> path0 ` set ?p")
    case True
    then show ?thesis by (simp add: map_of_commitFileStateChange)
  next
    case False
    then have "map_of (files ?s') k = map_of (files s) k"
      by (simp add: map_of_commitFileStateChange)
    also from False have "\<dots> = map_of (applyPatches (files s) ?p) k"
      by (simp add: map_of_applyPatches_other)
    finally show ?thesis by (simp add: fwd)
  qed
  then show ?thesis by (auto simp: finishDraft_def Let_def ps_def)
qed

lemma applyGlobal_Some:
  assumes "callback (createDraft (files s)) = Some d" and "draft_run (createDraft (files s)) d"
  shows "\<exists>s'. applyGlobal callback s = Some s' \<and> map_of (files s') = map_of (copy d) \<and>
              patchIndex s' = patchIndex s + 1"
proof -
  from draft_run_inv [OF assms(2) draft_inv_create] have inv: "draft_inv (files s) d" .
  obtain n p ip where fd: "finishDraft d = (n, p, ip)" by (cases "finishDraft d")
  from finishDraft_files [OF inv] fd
  have "map_of (files (commitFileStateChange n p (storePatches p ip s))) = map_of (copy d)" by simp
  then show ?thesis
    by (simp add: applyGlobal_def produceWithPatches_def assms(1) fd storePatches_patchIndex)
qed

lemma applyGlobal_None: "callback (createDraft (files s)) = None \<Longrightarrow> applyGlobal callback s = None"
  by (simp add: applyGlobal_def produceWithPatches_def)

lemma replaceRange_all: "replaceRange 0 (int (length xs) - 1) ys xs = ys"
  by (simp add: replaceRange_def Let_def)

lemma foldM_Some: "foldM (\<lambda>x b. Some (h x b)) xs b = Some (fold h xs b)"
  by (induction xs arbitrary: b) simp_all

lemma copy_draft_set [simp]: "map_of (copy (draft_set k v d)) = (map_of (copy d))(k \<mapsto> v)"
  by (simp add: draft_set_def update_conv')

lemma copy_draft_delete [simp]: "map_of (copy (draft_delete k d)) = (map_of (copy d))(k := None)"
  by (auto simp: draft_delete_def delete_conv')

lemma copy_draft_update:
  "map_of (copy (draft_update k g d)) =
     (case map_of (copy d) k of None \<Rightarrow> map_of (copy d) | Some v \<Rightarrow> (map_of (copy d))(k \<mapsto> g v))"
  by (simp add: draft_update_def update_conv' split: option.split)

lemma copy_createDraft [simp]: "copy (createDraft S) = S"
  by (simp add: createDraft_def)

lemma fold_draft_set:
  assumes "distinct ids" "length xs \<le> length ids"
  shows "draft_run d0 (fold (\<lambda>(i, x) d. draft_set (ids ! i) (g i x) d) (enumerate 0 xs) d0) \<and>
         (\<forall>i<length xs. map_of (copy (fold (\<lambda>(i, x) d. draft_set (ids ! i) (g i x) d) (enumerate 0 xs) d0)) (ids ! i)
              = Some (g i (xs ! i))) \<and>
         (\<forall>k. k \<notin> set ids \<longrightarrow>
              map_of (copy (fold (\<lambda>(i, x) d. draft_set (ids ! i) (g i x) d) (enumerate 0 xs) d0)) k
              = map_of (copy d0) k)"
  using assms(2)
proof (induction xs rule: rev_induct)
  case Nil
  show ?case by (simp add: run_none)
next
  case (snoc x xs)
  let ?d = "fold (\<lambda>(i, x) d. draft_set (ids ! i) (g i x) d) (enumerate 0 xs) d0"
  from snoc have ih: "draft_run d0 ?d"
    "\<forall>i<length xs. map_of (copy ?d) (ids ! i) = Some (g i (xs ! i))"
    "\<forall>k. k \<notin> set ids \<longrightarrow> map_of (copy ?d) k = map_of (copy d0) k"
    by simp_all
  have e: "fold (\<lambda>(i, x) d. draft_set (ids ! i) (g i x) d) (enumerate 0 (xs @ [x])) d0
             = draft_set (ids ! length xs) (g (length xs) x) ?d"
    by (simp add: enumerate_append_eq)
  have ne: "ids ! i \<noteq> ids ! length xs" if "i < length xs" for i
    using that assms(1) snoc.prems by (simp add: nth_eq_iff_index_eq)
  have inids: "ids ! length xs \<in> set ids" using snoc.prems by simp
  show ?case unfolding e
    using ih ne inids by (auto simp: less_Suc_eq nth_append intro: run_set)
qed

section \<open>Split: the closest point\<close>

lemma split_closest_upto:
  fixes d :: "nat \<Rightarrow> real"
  defines "step \<equiv> (\<lambda>i (minDistance, minIndex). (let dst = d i in if dst < minDistance then (dst, i) else (minDistance, minIndex)))"
  shows "case fold step [0..<k] (M, 0) of (md, mi) \<Rightarrow>
           (md = M \<and> mi = 0 \<and> (\<forall>j<k. M \<le> d j)) \<or>
           (mi < k \<and> md = d mi \<and> md < M \<and> (\<forall>j<k. md \<le> d j) \<and> (\<forall>j<mi. md < d j))"
proof (induction k)
  case 0
  show ?case by simp
next
  case (Suc k)
  obtain md mi where f: "fold step [0..<k] (M, 0) = (md, mi)" by (cases "fold step [0..<k] (M, 0)")
  from Suc f have ih: "(md = M \<and> mi = 0 \<and> (\<forall>j<k. M \<le> d j)) \<or>
           (mi < k \<and> md = d mi \<and> md < M \<and> (\<forall>j<k. md \<le> d j) \<and> (\<forall>j<mi. md < d j))" by simp
  have "fold step [0..<Suc k] (M, 0) = step k (md, mi)"
    by (simp add: f)
  also have "\<dots> = (if d k < md then (d k, k) else (md, mi))"
    by (simp add: step_def Let_def)
  finally have s: "fold step [0..<Suc k] (M, 0) = (if d k < md then (d k, k) else (md, mi))" .
  show ?case
  proof (cases "d k < md")
    case True
    with ih have "\<forall>j<k. d k < d j" by auto
    with True ih show ?thesis unfolding s by (auto simp: less_Suc_eq)
  next
    case False
    with ih show ?thesis unfolding s by (auto simp: less_Suc_eq)
  qed
qed

lemma split_closest_eq:
  "split_closest distance trkpts c =
     fold (\<lambda>i (minDistance, minIndex).
             (let dst = (\<lambda>j. distance (trkpts ! j) c) i in if dst < minDistance then (dst, i) else (minDistance, minIndex)))
          [0..<length trkpts] (MAX_VALUE, 0)"
  by (simp add: split_closest_def)

text \<open>
  Claim C6. When some point of the segment is nearer to the target than \<open>Number.MAX_VALUE\<close>,
  the index found by the search of \<open>split\<close> is an index of the segment, its point has the
  least distance to the target among all the points of the segment, and every point
  before it is strictly farther: among points at the same least distance the first one
  is chosen. In particular, when the points \<open>i\<close> and \<open>i + 1\<close> are at the same distance,
  that distance is the least one and no earlier point attains it, the index is \<open>i\<close>.
\<close>

theorem split_first_minimum:
  assumes "\<exists>i<length trkpts. distance (trkpts ! i) c < MAX_VALUE"
  shows "split_minIndex distance trkpts c < length trkpts \<and>
         (\<forall>j<length trkpts. distance (trkpts ! split_minIndex distance trkpts c) c \<le> distance (trkpts ! j) c) \<and>
         (\<forall>j<split_minIndex distance trkpts c.
             distance (trkpts ! split_minIndex distance trkpts c) c < distance (trkpts ! j) c) \<and>
         (\<forall>i. Suc i < length trkpts \<and>
              distance (trkpts ! i) c = distance (trkpts ! Suc i) c \<and>
              (\<forall>j<length trkpts. distance (trkpts ! i) c \<le> distance (trkpts ! j) c) \<and>
              (\<forall>j<i. distance (trkpts ! i) c < distance (trkpts ! j) c)
              \<longrightarrow> split_minIndex distance trkpts c = i)"
proof -
  let ?d = "\<lambda>j. distance (trkpts ! j) c"
  let ?n = "length trkpts"
  obtain md mi where f: "split_closest distance trkpts c = (md, mi)"
    by (cases "split_closest distance trkpts c")
  then have m: "split_minIndex distance trkpts c = mi" by (simp add: split_minIndex_def)
  from split_closest_upto [where d = ?d and k = ?n and M = MAX_VALUE] f
  have "(md = MAX_VALUE \<and> mi = 0 \<and> (\<forall>j<?n. MAX_VALUE \<le> ?d j)) \<or>
           (mi < ?n \<and> md = ?d mi \<and> md < MAX_VALUE \<and> (\<forall>j<?n. md \<le> ?d j) \<and> (\<forall>j<mi. md < ?d j))"
    by (simp add: split_closest_eq)
  with assms have p: "mi < ?n" "md = ?d mi" "\<forall>j<?n. md \<le> ?d j" "\<forall>j<mi. md < ?d j"
    by (auto simp: not_le [symmetric])
  have "mi = i" if a: "Suc i < ?n" "\<forall>j<?n. ?d i \<le> ?d j" "\<forall>j<i. ?d i < ?d j" for i
  proof (rule ccontr)
    assume ne: "mi \<noteq> i"
    from a have i: "i < ?n" by simp
    from p a i have eq: "?d mi = ?d i" by (metis order_antisym)
    from ne consider "mi < i" | "i < mi" by linarith
    then show False
    proof cases
      case 1
      with a(3) eq show False by auto
    next
      case 2
      with p(2,4) eq show False by auto
    qed
  qed
  with p show ?thesis unfolding m by blast
qed

theorem split_first_minimum_witness:
  "(\<exists>i<length [0, 2, 4::real]. line_distance ([0, 2, 4] ! i) 1 < MAX_VALUE) \<and>
   line_distance ([0, 2, 4] ! 0) 1 = line_distance ([0, 2, 4] ! Suc 0) 1 \<and>
   split_minIndex line_distance [0, 2, 4] 1 = 0"
proof -
  have h: "\<exists>i<length [0, 2, 4::real]. line_distance ([0, 2, 4] ! i) 1 < MAX_VALUE"
    by (rule exI [of _ 0]) (simp add: line_distance_def MAX_VALUE_def)
  have d: "line_distance ([0, 2, 4] ! 0) 1 = line_distance ([0, 2, 4] ! Suc 0) 1"
    by (simp add: line_distance_def)
  from split_first_minimum [where distance = line_distance and trkpts = "[0, 2, 4]" and c = 1, OF h]
  have "\<forall>i. Suc i < length [0, 2, 4::real] \<and>
              line_distance ([0, 2, 4] ! i) 1 = line_distance ([0, 2, 4] ! Suc i) 1 \<and>
              (\<forall>j<length [0, 2, 4::real]. line_distance ([0, 2, 4] ! i) 1 \<le> line_distance ([0, 2, 4] ! j) 1) \<and>
              (\<forall>j<i. line_distance ([0, 2, 4] ! i) 1 < line_distance ([0, 2, 4] ! j) 1)
              \<longrightarrow> split_minIndex line_distance [0, 2, 4] 1 = i"
    by blast
  from this [rule_format, of 0] have "split_minIndex line_distance [0, 2, 4] (1::real) = 0"
    by (simp add: line_distance_def less_Suc_eq numeral_3_eq_3 all_conj_distrib)
  with h d show ?thesis by blast
qed

section \<open>Extract: the assignment of the waypoints\<close>

lemma closest_point_upto:
  assumes "length cl = length wpts" "k \<le> length wpts"
  shows "length (fold (\<lambda>wptIndex cl.
             case nth_opt cl wptIndex of
               None \<Rightarrow> cl
             | Some c \<Rightarrow> cl[wptIndex := closest_update (distance point (wpts ! wptIndex)) i c])
          [0..<k] cl) = length wpts \<and>
         (\<forall>j<length wpts. fold (\<lambda>wptIndex cl.
             case nth_opt cl wptIndex of
               None \<Rightarrow> cl
             | Some c \<Rightarrow> cl[wptIndex := closest_update (distance point (wpts ! wptIndex)) i c])
          [0..<k] cl ! j = (if j < k then closest_update (distance point (wpts ! j)) i (cl ! j) else cl ! j))"
  using assms(2)
proof (induction k)
  case 0
  show ?case using assms(1) by simp
next
  case (Suc k)
  then show ?case
    by (auto simp: nth_opt_def nth_list_update less_Suc_eq)
qed

lemma closest_point_nth:
  assumes "length cl = length wpts"
  shows "length (closest_point distance wpts i point cl) = length wpts"
    and "j < length wpts \<Longrightarrow>
         closest_point distance wpts i point cl ! j = closest_update (distance point (wpts ! j)) i (cl ! j)"
  using closest_point_upto [OF assms order_refl, of distance point i]
  by (simp_all add: closest_point_def)

lemma fold_closest_point_nth:
  assumes "length cl = length wpts"
  shows "length (fold (closest_point distance wpts i) points cl) = length wpts \<and>
         (\<forall>j<length wpts. fold (closest_point distance wpts i) points cl ! j =
              fold (\<lambda>point. closest_update (distance point (wpts ! j)) i) points (cl ! j))"
  using assms
proof (induction points arbitrary: cl)
  case Nil
  then show ?case by simp
next
  case (Cons p points)
  have l: "length (closest_point distance wpts i p cl) = length wpts"
    and n: "\<And>j. j < length wpts \<Longrightarrow>
         closest_point distance wpts i p cl ! j = closest_update (distance p (wpts ! j)) i (cl ! j)"
    by (simp_all add: closest_point_nth [OF Cons.prems])
  from Cons.IH [OF l] show ?case by (simp add: n)
qed

lemma fold_groups_nth:
  assumes "length cl = length wpts"
  shows "length (fold (\<lambda>(i, points) cl. fold (closest_point distance wpts i) points cl) egroups cl) = length wpts \<and>
         (\<forall>j<length wpts.
            fold (\<lambda>(i, points) cl. fold (closest_point distance wpts i) points cl) egroups cl ! j =
            fold (\<lambda>(i, d). closest_update d i) (visits distance (wpts ! j) egroups) (cl ! j))"
  using assms
proof (induction egroups arbitrary: cl)
  case Nil
  then show ?case by (simp add: visits_def)
next
  case (Cons g egroups)
  obtain i points where g: "g = (i, points)" by (cases g)
  from fold_closest_point_nth [OF Cons.prems, of distance i points]
  have l: "length (fold (closest_point distance wpts i) points cl) = length wpts"
    and n: "\<And>j. j < length wpts \<Longrightarrow> fold (closest_point distance wpts i) points cl ! j =
              fold (\<lambda>point. closest_update (distance point (wpts ! j)) i) points (cl ! j)"
    by blast+
  have m: "fold (\<lambda>(i, d). closest_update d i) (map (\<lambda>p. (i, distance p w)) points) c
             = fold (\<lambda>point. closest_update (distance point w) i) points c" for w c
    by (simp add: fold_map comp_def)
  from Cons.IH [OF l] show ?case
    by (simp add: g n visits_def m)
qed

lemma scan_visits:
  "\<exists>indices' m'. fold (\<lambda>(i, d). closest_update d i) vs (w, indices, m) = (w, indices', m') \<and>
       m' \<le> m \<and> (\<forall>(i, d)\<in>set vs. m' \<le> d) \<and> (m' = m \<or> (\<exists>i. (i, m') \<in> set vs)) \<and>
       set indices' = (if m' < m then {} else set indices) \<union> {i. (i, m') \<in> set vs}"
proof (induction vs arbitrary: indices m)
  case Nil
  show ?case by simp
next
  case (Cons v vs)
  obtain i d where v: "v = (i, d)" by (cases v)
  consider "d < m" | "d = m" | "m < d" by linarith
  then show ?case
  proof cases
    case 1
    from Cons.IH [of "[i]" d] obtain indices' m' where
      f: "fold (\<lambda>(i, d). closest_update d i) vs (w, [i], d) = (w, indices', m')"
      and p: "m' \<le> d" "\<forall>(i, d)\<in>set vs. m' \<le> d" "m' = d \<or> (\<exists>i. (i, m') \<in> set vs)"
        "set indices' = (if m' < d then {} else set [i]) \<union> {i. (i, m') \<in> set vs}"
      by blast
    have "fold (\<lambda>(i, d). closest_update d i) (v # vs) (w, indices, m) = (w, indices', m')"
      using 1 f by (simp add: v closest_update_def)
    moreover from 1 p have "m' \<le> m" "\<forall>(i, d)\<in>set (v # vs). m' \<le> d"
      "m' = m \<or> (\<exists>i. (i, m') \<in> set (v # vs))"
      "set indices' = (if m' < m then {} else set indices) \<union> {i. (i, m') \<in> set (v # vs)}"
      by (auto simp: v)
    ultimately show ?thesis by blast
  next
    case 2
    from Cons.IH [of "indices @ [i]" m] obtain indices' m' where
      f: "fold (\<lambda>(i, d). closest_update d i) vs (w, indices @ [i], m) = (w, indices', m')"
      and p: "m' \<le> m" "\<forall>(i, d)\<in>set vs. m' \<le> d" "m' = m \<or> (\<exists>i. (i, m') \<in> set vs)"
        "set indices' = (if m' < m then {} else set (indices @ [i])) \<union> {i. (i, m') \<in> set vs}"
      by blast
    have "fold (\<lambda>(i, d). closest_update d i) (v # vs) (w, indices, m) = (w, indices', m')"
      using 2 f by (simp add: v closest_update_def)
    moreover from 2 p have "m' \<le> m" "\<forall>(i, d)\<in>set (v # vs). m' \<le> d"
      "m' = m \<or> (\<exists>i. (i, m') \<in> set (v # vs))"
      "set indices' = (if m' < m then {} else set indices) \<union> {i. (i, m') \<in> set (v # vs)}"
      by (auto simp: v)
    ultimately show ?thesis by blast
  next
    case 3
    from Cons.IH [of indices m] obtain indices' m' where
      f: "fold (\<lambda>(i, d). closest_update d i) vs (w, indices, m) = (w, indices', m')"
      and p: "m' \<le> m" "\<forall>(i, d)\<in>set vs. m' \<le> d" "m' = m \<or> (\<exists>i. (i, m') \<in> set vs)"
        "set indices' = (if m' < m then {} else set indices) \<union> {i. (i, m') \<in> set vs}"
      by blast
    have "fold (\<lambda>(i, d). closest_update d i) (v # vs) (w, indices, m) = (w, indices', m')"
      using 3 f by (simp add: v closest_update_def)
    moreover from 3 p have "m' \<le> m" "\<forall>(i, d)\<in>set (v # vs). m' \<le> d"
      "m' = m \<or> (\<exists>i. (i, m') \<in> set (v # vs))"
      "set indices' = (if m' < m then {} else set indices) \<union> {i. (i, m') \<in> set (v # vs)}"
      by (auto simp: v)
    ultimately show ?thesis by blast
  qed
qed

lemma set_visits_enumerate:
  "(i, d) \<in> set (visits distance w (enumerate 0 groups)) \<longleftrightarrow>
     i < length groups \<and> (\<exists>p\<in>set (groups ! i). d = distance p w)"
proof
  assume "(i, d) \<in> set (visits distance w (enumerate 0 groups))"
  then show "i < length groups \<and> (\<exists>p\<in>set (groups ! i). d = distance p w)"
    by (auto simp: visits_def in_set_enumerate_eq)
next
  assume a: "i < length groups \<and> (\<exists>p\<in>set (groups ! i). d = distance p w)"
  then obtain p where p: "p \<in> set (groups ! i)" "d = distance p w" by blast
  from a have "(i, groups ! i) \<in> set (enumerate 0 groups)" by (simp add: in_set_enumerate_eq)
  moreover from p have "(i, d) \<in> set (map (\<lambda>p. (i, distance p w)) (groups ! i))" by auto
  ultimately show "(i, d) \<in> set (visits distance w (enumerate 0 groups))"
    unfolding visits_def by (force simp: image_iff)
qed


lemma closest_of_nth:
  "length (closest_of distance wpts groups) = length wpts"
  "j < length wpts \<Longrightarrow>
     closest_of distance wpts groups ! j =
       fold (\<lambda>(i, d). closest_update d i) (visits distance (wpts ! j) (enumerate 0 groups))
            (j, [0], MAX_VALUE)"
proof -
  have l: "length (closest_init wpts) = length wpts" by (simp add: closest_init_def)
  note f = fold_groups_nth [OF l, of distance "enumerate 0 groups"]
  from f show "length (closest_of distance wpts groups) = length wpts"
    by (simp add: closest_of_def)
  assume "j < length wpts"
  with f show "closest_of distance wpts groups ! j =
       fold (\<lambda>(i, d). closest_update d i) (visits distance (wpts ! j) (enumerate 0 groups))
            (j, [0], MAX_VALUE)"
    by (simp add: closest_of_def closest_init_def)
qed

lemma closest_indices:
  assumes j: "j < length wpts" and i: "i < length groups"
    and H: "\<exists>g\<in>set groups. \<exists>q\<in>set g. distance q (wpts ! j) < MAX_VALUE"
  shows "fst (closest_of distance wpts groups ! j) = j"
    and "i \<in> set (fst (snd (closest_of distance wpts groups ! j))) \<longleftrightarrow>
           nearest distance (wpts ! j) groups i"
proof -
  let ?w = "wpts ! j"
  let ?vs = "visits distance ?w (enumerate 0 groups)"
  from scan_visits [of ?vs j "[0]" MAX_VALUE] obtain indices' m' where
    f: "fold (\<lambda>(i, d). closest_update d i) ?vs (j, [0], MAX_VALUE) = (j, indices', m')"
    and le: "\<forall>(i, d)\<in>set ?vs. m' \<le> d"
    and at: "m' = MAX_VALUE \<or> (\<exists>i. (i, m') \<in> set ?vs)"
    and ix: "set indices' = (if m' < MAX_VALUE then {} else set [0]) \<union> {i. (i, m') \<in> set ?vs}"
    by blast
  have c: "closest_of distance wpts groups ! j = (j, indices', m')"
    by (simp add: closest_of_nth(2) [OF j] f)
  show "fst (closest_of distance wpts groups ! j) = j" by (simp add: c)
  have all: "m' \<le> distance q ?w" if "g \<in> set groups" "q \<in> set g" for g q
  proof -
    from that(1) obtain k where k: "k < length groups" "groups ! k = g"
      by (auto simp: in_set_conv_nth)
    with that(2) have "(k, distance q ?w) \<in> set ?vs" by (auto simp: set_visits_enumerate)
    with le show ?thesis by blast
  qed
  from H all have lt: "m' < MAX_VALUE" by force
  with at obtain i0 where "(i0, m') \<in> set ?vs" by auto
  then obtain p0 where p0: "i0 < length groups" "p0 \<in> set (groups ! i0)" "m' = distance p0 ?w"
    by (auto simp: set_visits_enumerate)
  from ix lt have ix': "set indices' = {i. (i, m') \<in> set ?vs}" by simp
  show "i \<in> set (fst (snd (closest_of distance wpts groups ! j))) \<longleftrightarrow>
           nearest distance (wpts ! j) groups i"
  proof
    assume "i \<in> set (fst (snd (closest_of distance wpts groups ! j)))"
    then have "(i, m') \<in> set ?vs" by (simp add: c ix')
    then obtain p where "p \<in> set (groups ! i)" "m' = distance p ?w"
      by (auto simp: set_visits_enumerate)
    with all show "nearest distance ?w groups i" unfolding nearest_def by blast
  next
    assume "nearest distance ?w groups i"
    then obtain p where p: "p \<in> set (groups ! i)"
      and mn: "\<forall>g\<in>set groups. \<forall>q\<in>set g. distance p ?w \<le> distance q ?w"
      unfolding nearest_def by blast
    from p0 have "groups ! i0 \<in> set groups" by simp
    with mn p0 have "distance p ?w \<le> m'" by blast
    moreover from i p have "m' \<le> distance p ?w" by (intro all [of "groups ! i"]) simp_all
    ultimately have "m' = distance p ?w" by simp
    with i p have "(i, m') \<in> set ?vs" by (auto simp: set_visits_enumerate)
    then show "i \<in> set (fst (snd (closest_of distance wpts groups ! j)))" by (simp add: c ix')
  qed
qed

lemma closest_waypoints_nearest:
  assumes i: "i < length groups"
    and H: "\<forall>w\<in>set wpts. \<exists>g\<in>set groups. \<exists>q\<in>set g. distance q w < MAX_VALUE"
  shows "closest_waypoints (closest_of distance wpts groups) wpts i =
           map (\<lambda>j. wpts ! j) (filter (\<lambda>j. nearest distance (wpts ! j) groups i) [0..<length wpts])"
proof -
  let ?cl = "closest_of distance wpts groups"
  have l: "length ?cl = length wpts" by (rule closest_of_nth(1))
  have "?cl = map (\<lambda>j. ?cl ! j) [0..<length wpts]"
    using map_nth [of ?cl] by (simp add: l)
  then have "closest_waypoints ?cl wpts i =
      map (\<lambda>c. wpts ! fst c) (filter (\<lambda>c. i \<in> set (fst (snd c))) (map (\<lambda>j. ?cl ! j) [0..<length wpts]))"
    unfolding closest_waypoints_def by simp
  also have "\<dots> = map (\<lambda>j. wpts ! fst (?cl ! j))
                    (filter (\<lambda>j. i \<in> set (fst (snd (?cl ! j)))) [0..<length wpts])"
    by (simp add: filter_map comp_def)
  also have "\<dots> = map (\<lambda>j. wpts ! j) (filter (\<lambda>j. nearest distance (wpts ! j) groups i) [0..<length wpts])"
  proof -
    have Hj: "\<exists>g\<in>set groups. \<exists>q\<in>set g. distance q (wpts ! j) < MAX_VALUE" if "j < length wpts" for j
      using H that by simp
    have ci: "fst (?cl ! j) = j"
      "i \<in> set (fst (snd (?cl ! j))) \<longleftrightarrow> nearest distance (wpts ! j) groups i"
      if "j < length wpts" for j
      using closest_indices [where distance = distance and wpts = wpts and groups = groups and i = i and j = j, OF that i Hj [OF that]]
      by simp_all
    have 1: "filter (\<lambda>j. i \<in> set (fst (snd (?cl ! j)))) [0..<length wpts]
           = filter (\<lambda>j. nearest distance (wpts ! j) groups i) [0..<length wpts]"
      by (rule filter_cong [OF refl]) (simp add: ci(2))
    have 2: "map (\<lambda>j. wpts ! fst (?cl ! j)) xs = map (\<lambda>j. wpts ! j) xs"
      if "set xs \<subseteq> {0..<length wpts}" for xs
      using that by (intro map_cong [OF refl]) (auto simp: ci(1))
    show ?thesis unfolding 1 by (rule 2) auto
  qed
  finally show ?thesis .
qed

lemma getFileIds_nth_fresh:
  assumes "i < n" "k \<in> set observers"
  shows "getFileIds n observers ! i \<noteq> k"
proof -
  from getFileIds_fresh [of n observers] assms(1)
  have "getFileIds n observers ! i \<in> set (getFileIds n observers)"
    and "set (getFileIds n observers) \<inter> set observers = {}"
    by simp_all
  with assms(2) show ?thesis by auto
qed

lemma extract_tracks_effect:
  fixes f :: "('p, 'w) GPXFile"
  assumes H: "\<forall>w\<in>set (wpt f). \<exists>t\<in>set (trk f). \<exists>q\<in>set (points_of_track t). distance q w < MAX_VALUE"
  shows "draft_run d0 (extract_tracks distance observers f d0) \<and>
         (\<forall>i<length (trk f). \<exists>nf.
             map_of (copy (extract_tracks distance observers f d0)) (getFileIds (length (trk f)) observers ! i) = Some nf \<and>
             trk nf = extract_track (trk f ! i) \<and>
             wpt nf = map (\<lambda>j. wpt f ! j)
                        (filter (\<lambda>j. nearest distance (wpt f ! j) (map points_of_track (trk f)) i)
                                [0..<length (wpt f)]))"
proof -
  let ?ids = "getFileIds (length (trk f)) observers"
  let ?cl = "closest_of distance (wpt f) (map points_of_track (trk f))"
  define G where "G = (\<lambda>i track.
      (replaceWaypoints 0 (int (length (wpt f)) - 1) (closest_waypoints ?cl (wpt f) i)
         (replaceTracks 0 (int (length (trk f)) - 1) (extract_track track) f))
       \<lparr> data_id := Some (?ids ! i),
         metadata_name := Some (case name track of
             Some n \<Rightarrow> n
           | None \<Rightarrow> template (metadata_name f) @ '' ('' @ toString (i + 1) @ '')'') \<rparr>)"
  have et: "extract_tracks distance observers f d0 =
              fold (\<lambda>(i, track) d. draft_set (?ids ! i) (G i track) d) (enumerate 0 (trk f)) d0"
    by (simp add: extract_tracks_def Let_def G_def)
  from getFileIds_fresh [of "length (trk f)" observers]
  have d: "distinct ?ids" and l: "length (trk f) \<le> length ?ids" by simp_all
  note fd = fold_draft_set [OF d l, of d0 G]
  have H': "\<forall>w\<in>set (wpt f). \<exists>g\<in>set (map points_of_track (trk f)). \<exists>q\<in>set g. distance q w < MAX_VALUE"
    using H by auto
  have w: "wpt (G i track) = map (\<lambda>j. wpt f ! j)
                        (filter (\<lambda>j. nearest distance (wpt f ! j) (map points_of_track (trk f)) i)
                                [0..<length (wpt f)])" if "i < length (trk f)" for i track
  proof -
    have "wpt (G i track) = closest_waypoints ?cl (wpt f) i"
      by (simp add: G_def replaceWaypoints_def replaceTracks_def replaceRange_all)
    also have "\<dots> = map (\<lambda>j. wpt f ! j)
                        (filter (\<lambda>j. nearest distance (wpt f ! j) (map points_of_track (trk f)) i)
                                [0..<length (wpt f)])"
      by (rule closest_waypoints_nearest [OF _ H']) (use that in simp)
    finally show ?thesis .
  qed
  have t: "trk (G i track) = extract_track track" for i track
    by (simp add: G_def replaceWaypoints_def replaceTracks_def replaceRange_all)
  from fd w t show ?thesis unfolding et by auto
qed

lemma extract_segments_effect:
  fixes f :: "('p, 'w) GPXFile"
  assumes one: "length (trk f) = 1"
    and H: "\<forall>w\<in>set (wpt f). \<exists>t\<in>set (trk f). \<exists>q\<in>set (points_of_track t). distance q w < MAX_VALUE"
  shows "\<exists>d1. extract_segments distance observers f d0 = Some d1 \<and> draft_run d0 d1 \<and>
         (\<forall>i<length (trkseg (trk f ! 0)). \<exists>nf.
             map_of (copy d1) (getFileIds (length (trkseg (trk f ! 0))) observers ! i) = Some nf \<and>
             trk nf = [(trk f ! 0)\<lparr> trkseg := [trkseg (trk f ! 0) ! i] \<rparr>] \<and>
             wpt nf = map (\<lambda>j. wpt f ! j)
                        (filter (\<lambda>j. nearest distance (wpt f ! j) (map trkpt (trkseg (trk f ! 0))) i)
                                [0..<length (wpt f)]))"
proof -
  let ?t0 = "trk f ! 0"
  let ?ids = "getFileIds (length (trkseg ?t0)) observers"
  let ?cl = "closest_of distance (wpt f) (map trkpt (trkseg ?t0))"
  define G where "G = (\<lambda>i segment.
      (replaceWaypoints 0 (int (length (wpt f)) - 1) (closest_waypoints ?cl (wpt f) i)
         (f\<lparr> trk := (trk f)[0 := Track_replaceTrackSegments 0 (int (length (trkseg ?t0)) - 1) [segment] ?t0] \<rparr>))
       \<lparr> data_id := Some (?ids ! i),
         metadata_name := Some ((case name ?t0 of
             Some n \<Rightarrow> n
           | None \<Rightarrow> template (metadata_name f)) @ '' ('' @ toString (i + 1) @ '')'') \<rparr>)"
  have r: "replaceTrackSegments 0 a b segs f =
             Some (f\<lparr> trk := (trk f)[0 := Track_replaceTrackSegments a b segs ?t0] \<rparr>)" for a b segs
    using one by (simp add: replaceTrackSegments_def nth_opt_def)
  have es: "extract_segments distance observers f d0 =
              foldM (\<lambda>x d. Some ((\<lambda>(i, segment) d. draft_set (?ids ! i) (G i segment) d) x d))
                    (enumerate 0 (trkseg ?t0)) d0"
    by (simp add: extract_segments_def Let_def G_def r case_prod_unfold)
  have es': "extract_segments distance observers f d0 =
              Some (fold (\<lambda>(i, segment) d. draft_set (?ids ! i) (G i segment) d) (enumerate 0 (trkseg ?t0)) d0)"
    unfolding es by (rule foldM_Some)
  from getFileIds_fresh [of "length (trkseg ?t0)" observers]
  have d: "distinct ?ids" and l: "length (trkseg ?t0) \<le> length ?ids" by simp_all
  note fd = fold_draft_set [OF d l, of d0 G]
  from one have tf: "trk f = [?t0]" by (cases "trk f") simp_all
  have H': "\<forall>w\<in>set (wpt f). \<exists>g\<in>set (map trkpt (trkseg ?t0)). \<exists>q\<in>set g. distance q w < MAX_VALUE"
  proof
    fix w assume "w \<in> set (wpt f)"
    with H obtain t q where "t \<in> set (trk f)" "q \<in> set (points_of_track t)" "distance q w < MAX_VALUE"
      by blast
    moreover from this(1) tf have "t = ?t0" by (metis empty_iff empty_set set_ConsD)
    ultimately show "\<exists>g\<in>set (map trkpt (trkseg ?t0)). \<exists>q\<in>set g. distance q w < MAX_VALUE"
      by (auto simp: points_of_track_def)
  qed
  have w: "wpt (G i segment) = map (\<lambda>j. wpt f ! j)
                        (filter (\<lambda>j. nearest distance (wpt f ! j) (map trkpt (trkseg ?t0)) i)
                                [0..<length (wpt f)])" if "i < length (trkseg ?t0)" for i segment
  proof -
    have "wpt (G i segment) = closest_waypoints ?cl (wpt f) i"
      by (simp add: G_def replaceWaypoints_def replaceRange_all)
    also have "\<dots> = map (\<lambda>j. wpt f ! j)
                        (filter (\<lambda>j. nearest distance (wpt f ! j) (map trkpt (trkseg ?t0)) i)
                                [0..<length (wpt f)])"
      by (rule closest_waypoints_nearest [OF _ H']) (use that in simp)
    finally show ?thesis .
  qed
  have t: "trk (G i segment) = [(trk f ! 0)\<lparr> trkseg := [segment] \<rparr>]" for i segment
    using tf by (simp add: G_def replaceWaypoints_def Track_replaceTrackSegments_def replaceRange_all)
      (metis list_update_code(2))
  from fd w t show ?thesis unfolding es' by auto
qed

text \<open>
  Extract of one selected file in which every waypoint has some point nearer than
  \<open>Number.MAX_VALUE\<close>: the file is replaced by one new document per track (per segment
  when the file has exactly one track). The new document number \<open>i\<close> holds the track
  number \<open>i\<close>, as one track per segment (the only track, with the segment number \<open>i\<close>
  alone), and its waypoints are, in order, exactly the waypoints of the file for which the
  track (segment) number \<open>i\<close> has a point at the minimal distance over all the points of
  the file. A waypoint whose minimal distance is attained in several tracks (segments) is
  therefore in each of their documents.
\<close>

lemma extract_one_file:
  fixes f :: "('p, 'w) GPXFile"
  assumes fl: "map_of (files s) fid = Some f"
    and H: "\<forall>w\<in>set (wpt f). \<exists>t\<in>set (trk f). \<exists>q\<in>set (points_of_track t). distance q w < MAX_VALUE"
  shows "\<exists>s'. extractSelection distance [(fid, FILE, items)] s = Some s' \<and>
           map_of (files s') fid = None \<and>
           (1 < length (trk f) \<longrightarrow>
              (\<forall>i<length (trk f). \<exists>nf.
                 map_of (files s') (getFileIds (length (trk f)) (map fst (files s)) ! i) = Some nf \<and>
                 trk nf = extract_track (trk f ! i) \<and>
                 wpt nf = map (\<lambda>j. wpt f ! j)
                            (filter (\<lambda>j. nearest distance (wpt f ! j) (map points_of_track (trk f)) i)
                                    [0..<length (wpt f)]))) \<and>
           (length (trk f) = 1 \<longrightarrow>
              (\<forall>i<length (trkseg (trk f ! 0)). \<exists>nf.
                 map_of (files s') (getFileIds (length (trkseg (trk f ! 0))) (map fst (files s)) ! i) = Some nf \<and>
                 trk nf = [(trk f ! 0)\<lparr> trkseg := [trkseg (trk f ! 0) ! i] \<rparr>] \<and>
                 wpt nf = map (\<lambda>j. wpt f ! j)
                            (filter (\<lambda>j. nearest distance (wpt f ! j) (map trkpt (trkseg (trk f ! 0))) i)
                                    [0..<length (wpt f)])))"
proof -
  let ?S = "files s"
  let ?obs = "map fst ?S"
  let ?d0 = "createDraft ?S"
  let ?cb = "foldM (extractSelection_step distance ?S) [(fid, FILE, items)]"
  have obs: "fid \<in> set ?obs" using fl by (metis map_of_eq_None_iff option.distinct(1) set_map)
  have fresh: "getFileIds n ?obs ! i \<noteq> fid" if "i < n" for i n
    by (rule getFileIds_nth_fresh [OF that obs])
  consider (many) "1 < length (trk f)" | (one) "length (trk f) = 1" | (none) "length (trk f) = 0"
    by linarith
  then show ?thesis
  proof cases
    case many
    let ?d1 = "extract_tracks distance ?obs f ?d0"
    from extract_tracks_effect [OF H, where ?d0.0 = ?d0 and observers = ?obs]
    have run: "draft_run ?d0 ?d1"
      and new: "\<forall>i<length (trk f). \<exists>nf.
             map_of (copy ?d1) (getFileIds (length (trk f)) ?obs ! i) = Some nf \<and>
             trk nf = extract_track (trk f ! i) \<and>
             wpt nf = map (\<lambda>j. wpt f ! j)
                        (filter (\<lambda>j. nearest distance (wpt f ! j) (map points_of_track (trk f)) i)
                                [0..<length (wpt f)])"
      by blast+
    have cb: "?cb ?d0 = Some (draft_delete fid ?d1)"
      using many by (simp add: extractSelection_step_def fl)
    from applyGlobal_Some [of ?cb s, OF cb run_delete [OF run]]
    obtain s' where s': "applyGlobal ?cb s = Some s'"
      and fs: "map_of (files s') = map_of (copy (draft_delete fid ?d1))" by blast
    have "map_of (files s') (getFileIds (length (trk f)) ?obs ! i) = map_of (copy ?d1) (getFileIds (length (trk f)) ?obs ! i)"
      if "i < length (trk f)" for i
      using fresh [OF that] by (simp add: fs)
    with new s' fs many show ?thesis
      by (auto simp: extractSelection_def)
  next
    case one
    from extract_segments_effect [OF one H, where ?d0.0 = ?d0 and observers = ?obs] obtain d1
      where es: "extract_segments distance ?obs f ?d0 = Some d1" and run: "draft_run ?d0 d1"
        and new: "\<forall>i<length (trkseg (trk f ! 0)). \<exists>nf.
             map_of (copy d1) (getFileIds (length (trkseg (trk f ! 0))) ?obs ! i) = Some nf \<and>
             trk nf = [(trk f ! 0)\<lparr> trkseg := [trkseg (trk f ! 0) ! i] \<rparr>] \<and>
             wpt nf = map (\<lambda>j. wpt f ! j)
                        (filter (\<lambda>j. nearest distance (wpt f ! j) (map trkpt (trkseg (trk f ! 0))) i)
                                [0..<length (wpt f)])"
      by blast
    have cb: "?cb ?d0 = Some (draft_delete fid d1)"
      using one by (simp add: extractSelection_step_def fl es)
    from applyGlobal_Some [of ?cb s, OF cb run_delete [OF run]]
    obtain s' where s': "applyGlobal ?cb s = Some s'"
      and fs: "map_of (files s') = map_of (copy (draft_delete fid d1))" by blast
    have "map_of (files s') (getFileIds (length (trkseg (trk f ! 0))) ?obs ! i)
            = map_of (copy d1) (getFileIds (length (trkseg (trk f ! 0))) ?obs ! i)"
      if "i < length (trkseg (trk f ! 0))" for i
      using fresh [OF that] by (simp add: fs)
    with new s' fs one show ?thesis
      by (auto simp: extractSelection_def)
  next
    case none
    have cb: "?cb ?d0 = Some (draft_delete fid ?d0)"
      using none by (simp add: extractSelection_step_def fl)
    from applyGlobal_Some [of ?cb s, OF cb run_delete [OF run_none]]
    obtain s' where s': "applyGlobal ?cb s = Some s'"
      and fs: "map_of (files s') = map_of (copy (draft_delete fid ?d0))" by blast
    with none show ?thesis by (auto simp: extractSelection_def)
  qed
qed

lemma getFileIds_2_2: "getFileIds 2 [''gpx-0'', ''gpx-1''] = [''gpx-2'', ''gpx-3'']"
  by (simp add: getFileIds_def getFileIds_loop.simps gpx_id_def toString.simps digit_def)

lemma closest_twoTracks: "closest_of line_distance [1] [[0], [2]] = [(0, [0, 1], 1)]"
  by (simp add: closest_of_def closest_init_def closest_point_def closest_update_def nth_opt_def
      line_distance_def MAX_VALUE_def)

lemma closest_otherTracks: "closest_of line_distance [11] [[10], [12]] = [(0, [0, 1], 1)]"
  by (simp add: closest_of_def closest_init_def closest_point_def closest_update_def nth_opt_def
      line_distance_def MAX_VALUE_def)

lemma getFileIds_2_2_Suc: "getFileIds (Suc (Suc 0)) [''gpx-0'', ''gpx-1''] = [''gpx-2'', ''gpx-3'']"
  using getFileIds_2_2 by (simp add: numeral_2_eq_2)

lemma toString_1_2: "toString (Suc 0) = ''1''" "toString (Suc (Suc 0)) = ''2''"
  by (simp_all add: toString.simps digit_def)

lemma extract_twoTracks:
  "extract_tracks line_distance [''gpx-0'', ''gpx-1''] twoTracks d =
     draft_set ''gpx-3'' \<lparr> data_id = Some ''gpx-3'', metadata_name = Some ''a (2)'',
                            trk = [\<lparr> name = None, trkseg = [\<lparr> trkpt = [2] \<rparr>] \<rparr>], wpt = [1] \<rparr>
       (draft_set ''gpx-2'' \<lparr> data_id = Some ''gpx-2'', metadata_name = Some ''a (1)'',
                            trk = [\<lparr> name = None, trkseg = [\<lparr> trkpt = [0] \<rparr>] \<rparr>], wpt = [1] \<rparr> d)"
  by (simp add: extract_tracks_def twoTracks_def getFileIds_2_2_Suc points_of_track_def closest_twoTracks
      Let_def replaceTracks_def replaceWaypoints_def replaceRange_def extract_track_def
      Track_replaceTrackSegments_def closest_waypoints_def toString_1_2)

lemma extract_otherTracks:
  "extract_tracks line_distance [''gpx-0'', ''gpx-1''] otherTracks d =
     draft_set ''gpx-3'' \<lparr> data_id = Some ''gpx-3'', metadata_name = Some ''b (2)'',
                            trk = [\<lparr> name = None, trkseg = [\<lparr> trkpt = [12] \<rparr>] \<rparr>], wpt = [11] \<rparr>
       (draft_set ''gpx-2'' \<lparr> data_id = Some ''gpx-2'', metadata_name = Some ''b (1)'',
                            trk = [\<lparr> name = None, trkseg = [\<lparr> trkpt = [10] \<rparr>] \<rparr>], wpt = [11] \<rparr> d)"
  by (simp add: extract_tracks_def otherTracks_def getFileIds_2_2_Suc points_of_track_def closest_otherTracks
      Let_def replaceTracks_def replaceWaypoints_def replaceRange_def extract_track_def
      Track_replaceTrackSegments_def closest_waypoints_def toString_1_2)

lemma extractSelection_step_twoTracks:
  "extractSelection_step line_distance (files twoFilesState) (''gpx-0'', FILE, [ListFileItem ''gpx-0'']) d =
     Some (draft_delete ''gpx-0'' (extract_tracks line_distance [''gpx-0'', ''gpx-1''] twoTracks d))"
  by (simp add: extractSelection_step_def twoFilesState_def) (simp add: twoTracks_def)

lemma extractSelection_step_otherTracks:
  "extractSelection_step line_distance (files twoFilesState) (''gpx-1'', FILE, [ListFileItem ''gpx-1'']) d =
     Some (draft_delete ''gpx-1'' (extract_tracks line_distance [''gpx-0'', ''gpx-1''] otherTracks d))"
  by (simp add: extractSelection_step_def twoFilesState_def) (simp add: otherTracks_def)

text \<open>
  Claim C7, on the code. With the file \<open>twoTracks\<close> selected alone, extract gives one
  document per track, and the waypoint \<open>1\<close>, at the same distance from the points of both
  tracks, is in both. With the files \<open>twoTracks\<close> and \<open>otherTracks\<close> selected,
  \<open>getFileIds\<close> is called once for each file while the observers are the same, and
  returns \<open>gpx-2\<close> and \<open>gpx-3\<close> both times: the documents made from \<open>otherTracks\<close>
  replace those made from \<open>twoTracks\<close>, whose tracks and waypoint are in no document
  of the result.
\<close>

theorem extract_two_files_collide:
  "getFileIds 2 (map fst (files twoFilesState)) = [''gpx-2'', ''gpx-3''] \<and>
   map_option files (extractSelection line_distance [(''gpx-0'', FILE, [ListFileItem ''gpx-0''])] twoFilesState) =
     Some [(''gpx-1'', otherTracks),
           (''gpx-2'', \<lparr> data_id = Some ''gpx-2'', metadata_name = Some ''a (1)'',
                         trk = [\<lparr> name = None, trkseg = [\<lparr> trkpt = [0] \<rparr>] \<rparr>], wpt = [1] \<rparr>),
           (''gpx-3'', \<lparr> data_id = Some ''gpx-3'', metadata_name = Some ''a (2)'',
                         trk = [\<lparr> name = None, trkseg = [\<lparr> trkpt = [2] \<rparr>] \<rparr>], wpt = [1] \<rparr>)] \<and>
   map_option files (extractSelection line_distance
       [(''gpx-0'', FILE, [ListFileItem ''gpx-0'']), (''gpx-1'', FILE, [ListFileItem ''gpx-1''])] twoFilesState) =
     Some [(''gpx-2'', \<lparr> data_id = Some ''gpx-2'', metadata_name = Some ''b (1)'',
                         trk = [\<lparr> name = None, trkseg = [\<lparr> trkpt = [10] \<rparr>] \<rparr>], wpt = [11] \<rparr>),
           (''gpx-3'', \<lparr> data_id = Some ''gpx-3'', metadata_name = Some ''b (2)'',
                         trk = [\<lparr> name = None, trkseg = [\<lparr> trkpt = [12] \<rparr>] \<rparr>], wpt = [11] \<rparr>)]"
proof -
  have 1: "getFileIds 2 (map fst (files twoFilesState)) = [''gpx-2'', ''gpx-3'']"
    by (simp add: twoFilesState_def getFileIds_2_2)
  have 2: "map_option files (extractSelection line_distance [(''gpx-0'', FILE, [ListFileItem ''gpx-0''])] twoFilesState) =
     Some [(''gpx-1'', otherTracks),
           (''gpx-2'', \<lparr> data_id = Some ''gpx-2'', metadata_name = Some ''a (1)'',
                         trk = [\<lparr> name = None, trkseg = [\<lparr> trkpt = [0] \<rparr>] \<rparr>], wpt = [1] \<rparr>),
           (''gpx-3'', \<lparr> data_id = Some ''gpx-3'', metadata_name = Some ''a (2)'',
                         trk = [\<lparr> name = None, trkseg = [\<lparr> trkpt = [2] \<rparr>] \<rparr>], wpt = [1] \<rparr>)]"
    unfolding extractSelection_def applyGlobal_def produceWithPatches_def foldM.simps extractSelection_step_twoTracks extract_twoTracks
    by (simp add: twoFilesState_def finishDraft_def createDraft_def draft_set_def draft_delete_def
        patchesOf_def commitFileStateChange_def getChangedFileIds_def Let_def storePatches_def)
  have 3: "map_option files (extractSelection line_distance
       [(''gpx-0'', FILE, [ListFileItem ''gpx-0'']), (''gpx-1'', FILE, [ListFileItem ''gpx-1''])] twoFilesState) =
     Some [(''gpx-2'', \<lparr> data_id = Some ''gpx-2'', metadata_name = Some ''b (1)'',
                         trk = [\<lparr> name = None, trkseg = [\<lparr> trkpt = [10] \<rparr>] \<rparr>], wpt = [11] \<rparr>),
           (''gpx-3'', \<lparr> data_id = Some ''gpx-3'', metadata_name = Some ''b (2)'',
                         trk = [\<lparr> name = None, trkseg = [\<lparr> trkpt = [12] \<rparr>] \<rparr>], wpt = [11] \<rparr>)]"
    unfolding extractSelection_def applyGlobal_def produceWithPatches_def foldM.simps extractSelection_step_twoTracks extractSelection_step_otherTracks
      extract_twoTracks extract_otherTracks
    by (simp add: twoFilesState_def finishDraft_def createDraft_def draft_set_def draft_delete_def
        patchesOf_def commitFileStateChange_def getChangedFileIds_def Let_def storePatches_def)
  from 1 2 3 show ?thesis by (intro conjI)
qed

section \<open>Crop of a selected file\<close>

lemma foldM_single: "foldM g [x] b = g x b"
  by (simp split: option.split)

lemma cropSelection_step_FILE:
  "draft_get draft fileId = Some f \<Longrightarrow>
   cropSelection_step (fileId, FILE, items) (draft, startIndex, endIndex) =
     Some (if startIndex \<ge> int (getNumberOfTrackPoints f) \<or> endIndex < 0 then draft_delete fileId draft
           else if startIndex > 0 \<or> endIndex < int (getNumberOfTrackPoints f) - 1
             then draft_update fileId (crop (max 0 startIndex) (min (int (getNumberOfTrackPoints f) - 1) endIndex) None None) draft
             else draft,
           startIndex - int (getNumberOfTrackPoints f), endIndex - int (getNumberOfTrackPoints f))"
  by (simp add: Let_def)

lemma applyGlobal_unchanged:
  assumes "callback (createDraft (files s)) = Some (createDraft (files s))"
  shows "applyGlobal callback s =
           Some (s\<lparr> patches := patches (storePatches [] [] s), patchIndex := patchIndex s + 1 \<rparr>)"
  using assms
  by (simp add: applyGlobal_def produceWithPatches_def finishDraft_def createDraft_def
      commitFileStateChange_def getChangedFileIds_def storePatches_def Let_def)

text \<open>
  Claim C4, as the code has it. For a crop of a selected file \<open>f\<close> with \<open>N\<close> points:
  when \<open>N \<ge> 1\<close>, cropping to \<open>[0, N - 1]\<close> leaves the documents as they are; cropping to the
  empty range \<open>[k, k - 1]\<close> deletes the file from the document state exactly when
  \<open>k \<le> 0\<close> or \<open>k \<ge> N\<close> (the window lies outside the file); for \<open>0 < k < N\<close> the file stays
  in the document state and holds the result of \<open>crop(k, k - 1)\<close>. No other document
  changes.
\<close>

theorem cropSelection_file_level:
  fixes f :: "('p, 'w) GPXFile"
  assumes fl: "map_of (files s) fid = Some f"
  shows "(1 \<le> getNumberOfTrackPoints f \<longrightarrow>
            (\<exists>s'. cropSelection 0 (int (getNumberOfTrackPoints f) - 1) [(fid, FILE, items)] s = Some s' \<and>
                  files s' = files s)) \<and>
         (\<forall>k. \<exists>s'. cropSelection k (k - 1) [(fid, FILE, items)] s = Some s' \<and>
                  (map_of (files s') fid = None \<longleftrightarrow> k \<le> 0 \<or> int (getNumberOfTrackPoints f) \<le> k) \<and>
                  (0 < k \<and> k < int (getNumberOfTrackPoints f) \<longrightarrow>
                     map_of (files s') fid = Some (crop k (k - 1) None None f)) \<and>
                  (\<forall>fid'. fid' \<noteq> fid \<longrightarrow> map_of (files s') fid' = map_of (files s) fid'))"
proof (intro conjI impI allI)
  let ?n = "int (getNumberOfTrackPoints f)"
  let ?init = "createDraft (files s)"
  have g: "draft_get ?init fid = Some f" by (simp add: draft_get_def fl)
  {
    assume "1 \<le> getNumberOfTrackPoints f"
    then have "map_option fst (foldM cropSelection_step [(fid, FILE, items)] (?init, 0, ?n - 1)) = Some ?init"
      unfolding foldM_single cropSelection_step_FILE [OF g] by simp
    from applyGlobal_unchanged [of "\<lambda>draft. map_option fst (foldM cropSelection_step [(fid, FILE, items)] (draft, 0, ?n - 1))" s, OF this]
    show "\<exists>s'. cropSelection 0 (?n - 1) [(fid, FILE, items)] s = Some s' \<and> files s' = files s"
      by (simp add: cropSelection_def)
  }
  fix k :: int
  let ?cb = "\<lambda>draft. map_option fst (foldM cropSelection_step [(fid, FILE, items)] (draft, k, k - 1))"
  let ?res = "if k \<ge> ?n \<or> k - 1 < 0 then draft_delete fid ?init
            else if k > 0 \<or> k - 1 < ?n - 1
              then draft_update fid (crop (max 0 k) (min (?n - 1) (k - 1)) None None) ?init
              else ?init"
  have cb: "?cb ?init = Some ?res"
    unfolding foldM_single cropSelection_step_FILE [OF g] by (simp only: option.map fst_conv)
  have run: "draft_run ?init ?res"
    by (simp add: run_none run_delete [OF run_none] run_update [OF run_none])
  from applyGlobal_Some [of ?cb s, OF cb run] obtain s'
    where s': "applyGlobal ?cb s = Some s'" and fs: "map_of (files s') = map_of (copy ?res)" by blast
  have c: "cropSelection k (k - 1) [(fid, FILE, items)] s = Some s'"
    using s' by (simp add: cropSelection_def)
  have del: "map_of (copy ?res) = (map_of (files s))(fid := None)" if "k \<le> 0 \<or> ?n \<le> k"
  proof -
    from that have "k \<ge> ?n \<or> k - 1 < 0" by arith
    then have "?res = draft_delete fid ?init" by (rule if_P)
    then show ?thesis by (simp only: copy_draft_delete copy_createDraft)
  qed
  have upd: "map_of (copy ?res) = (map_of (files s))(fid \<mapsto> crop k (k - 1) None None f)"
    if "0 < k \<and> k < ?n"
  proof -
    from that have a: "\<not> (k \<ge> ?n \<or> k - 1 < 0)" and b: "k > 0 \<or> k - 1 < ?n - 1"
      and m: "max 0 k = k" "min (?n - 1) (k - 1) = k - 1" by simp_all
    have "?res = draft_update fid (crop k (k - 1) None None) ?init"
      unfolding if_not_P [OF a] if_P [OF b] m ..
    then show ?thesis by (simp only: copy_draft_update copy_createDraft fl option.case)
  qed
  have 1: "map_of (files s') fid = None \<longleftrightarrow> k \<le> 0 \<or> ?n \<le> k"
  proof (cases "k \<le> 0 \<or> ?n \<le> k")
    case True
    then show ?thesis unfolding fs del [OF True] by simp
  next
    case False
    then have "0 < k \<and> k < ?n" by simp
    from False show ?thesis unfolding fs upd [OF \<open>0 < k \<and> k < ?n\<close>] by simp
  qed
  have 2: "map_of (files s') fid = Some (crop k (k - 1) None None f)" if "0 < k \<and> k < ?n"
    unfolding fs upd [OF that] by simp
  have 3: "map_of (files s') fid' = map_of (files s) fid'" if "fid' \<noteq> fid" for fid'
  proof (cases "k \<le> 0 \<or> ?n \<le> k")
    case True
    with that show ?thesis unfolding fs del [OF True] by simp
  next
    case False
    then have "0 < k \<and> k < ?n" by simp
    from that show ?thesis unfolding fs upd [OF \<open>0 < k \<and> k < ?n\<close>] by simp
  qed
  have i2: "0 < k \<and> k < ?n \<longrightarrow> map_of (files s') fid = Some (crop k (k - 1) None None f)"
    by (rule impI) (rule 2)
  have i3: "\<forall>fid'. fid' \<noteq> fid \<longrightarrow> map_of (files s') fid' = map_of (files s) fid'"
    by (intro allI impI) (rule 3)
  have "cropSelection k (k - 1) [(fid, FILE, items)] s = Some s' \<and>
                  (map_of (files s') fid = None \<longleftrightarrow> k \<le> 0 \<or> ?n \<le> k) \<and>
                  (0 < k \<and> k < ?n \<longrightarrow> map_of (files s') fid = Some (crop k (k - 1) None None f)) \<and>
                  (\<forall>fid'. fid' \<noteq> fid \<longrightarrow> map_of (files s') fid' = map_of (files s) fid')"
    by (intro conjI c 1 i2 i3)
  then show "\<exists>s'. cropSelection k (k - 1) [(fid, FILE, items)] s = Some s' \<and>
                  (map_of (files s') fid = None \<longleftrightarrow> k \<le> 0 \<or> ?n \<le> k) \<and>
                  (0 < k \<and> k < ?n \<longrightarrow> map_of (files s') fid = Some (crop k (k - 1) None None f)) \<and>
                  (\<forall>fid'. fid' \<noteq> fid \<longrightarrow> map_of (files s') fid' = map_of (files s) fid')"
    by (rule exI [where x = s'])
qed

lemma crop_threePoints: "crop 1 0 None None threePoints = croppedThreePoints"
  by (simp add: crop_def threePoints_def croppedThreePoints_def Track_getNumberOfTrackPoints_def
      Track_crop_def TrackSegment_crop_def Let_def)

lemma n_threePoints: "getNumberOfTrackPoints threePoints = 3"
  by (simp add: getNumberOfTrackPoints_def threePoints_def Track_getNumberOfTrackPoints_def)

lemma n_noPoints: "getNumberOfTrackPoints noPoints = 0"
  by (simp add: getNumberOfTrackPoints_def noPoints_def)

lemma ne: "threePoints \<noteq> croppedThreePoints"
  by (simp add: threePoints_def croppedThreePoints_def)

text \<open>
  Claim C4 fails as stated: cropping the file \<open>threePoints\<close> (three points) to the empty
  range \<open>[1, 0]\<close> keeps the file in the document state, with no track left; and for
  the empty file \<open>noPoints\<close> (\<open>N = 0\<close>) cropping to \<open>[0, N - 1]\<close> deletes the file.
\<close>

theorem cropSelection_empty_range_counterexample:
  "cropSelection 1 0 [(''gpx-0'', FILE, [ListFileItem ''gpx-0''])] threePointsState =
     Some \<lparr> files = [(''gpx-0'', croppedThreePoints)],
            patches = [(0, \<lparr> patch = [Replace ''gpx-0'' croppedThreePoints],
                           inversePatch = [Replace ''gpx-0'' threePoints], index = 0 \<rparr>)],
            patchIndex = 0 \<rparr> \<and>
   getNumberOfTrackPoints noPoints = 0 \<and>
   cropSelection 0 (int (getNumberOfTrackPoints noPoints) - 1) [(''gpx-0'', FILE, [ListFileItem ''gpx-0''])] noPointsState =
     Some \<lparr> files = [],
            patches = [(0, \<lparr> patch = [Remove ''gpx-0''], inversePatch = [Add ''gpx-0'' noPoints], index = 0 \<rparr>)],
            patchIndex = 0 \<rparr>"
proof -
  have g3: "draft_get (createDraft (files threePointsState)) ''gpx-0'' = Some threePoints"
    by (simp add: draft_get_def createDraft_def threePointsState_def)
  have g0: "draft_get (createDraft (files noPointsState)) ''gpx-0'' = Some noPoints"
    by (simp add: draft_get_def createDraft_def noPointsState_def)
  have 1: "cropSelection 1 0 [(''gpx-0'', FILE, [ListFileItem ''gpx-0''])] threePointsState =
     Some \<lparr> files = [(''gpx-0'', croppedThreePoints)],
            patches = [(0, \<lparr> patch = [Replace ''gpx-0'' croppedThreePoints],
                           inversePatch = [Replace ''gpx-0'' threePoints], index = 0 \<rparr>)],
            patchIndex = 0 \<rparr>"
    unfolding cropSelection_def applyGlobal_def produceWithPatches_def foldM_single
      cropSelection_step_FILE [OF g3] n_threePoints
    by (simp add: crop_threePoints ne threePointsState_def finishDraft_def createDraft_def
        draft_update_def patchesOf_def commitFileStateChange_def getChangedFileIds_def Let_def
        storePatches_def delete_above_def patchMinMaxIndex_def table_keys_def MAX_PATCHES_def)
  have 2: "cropSelection 0 (int (getNumberOfTrackPoints noPoints) - 1) [(''gpx-0'', FILE, [ListFileItem ''gpx-0''])] noPointsState =
     Some \<lparr> files = [],
            patches = [(0, \<lparr> patch = [Remove ''gpx-0''], inversePatch = [Add ''gpx-0'' noPoints], index = 0 \<rparr>)],
            patchIndex = 0 \<rparr>"
    unfolding cropSelection_def applyGlobal_def produceWithPatches_def foldM_single
      cropSelection_step_FILE [OF g0] n_noPoints
    by (simp add: noPointsState_def finishDraft_def createDraft_def
        draft_delete_def patchesOf_def commitFileStateChange_def getChangedFileIds_def Let_def
        storePatches_def delete_above_def patchMinMaxIndex_def table_keys_def MAX_PATCHES_def)
  from 1 n_noPoints 2 show ?thesis by (intro conjI)
qed

theorem cropSelection_file_level_witness:
  "map_of (files threePointsState) ''gpx-0'' = Some threePoints \<and>
   1 \<le> getNumberOfTrackPoints threePoints \<and>
   (\<exists>s'. cropSelection 0 (int (getNumberOfTrackPoints threePoints) - 1)
            [(''gpx-0'', FILE, [ListFileItem ''gpx-0''])] threePointsState = Some s' \<and>
         files s' = files threePointsState) \<and>
   (\<exists>s'. cropSelection 1 (1 - 1) [(''gpx-0'', FILE, [ListFileItem ''gpx-0''])] threePointsState = Some s' \<and>
         map_of (files s') ''gpx-0'' = Some (crop 1 (1 - 1) None None threePoints)) \<and>
   (\<exists>s'. cropSelection 3 (3 - 1) [(''gpx-0'', FILE, [ListFileItem ''gpx-0''])] threePointsState = Some s' \<and>
         map_of (files s') ''gpx-0'' = None)"
proof -
  have fl: "map_of (files threePointsState) ''gpx-0'' = Some threePoints"
    by (simp add: threePointsState_def)
  have n: "1 \<le> getNumberOfTrackPoints threePoints" by (simp add: n_threePoints)
  note t = cropSelection_file_level [OF fl, of "[ListFileItem ''gpx-0'']"]
  from t n have a: "\<exists>s'. cropSelection 0 (int (getNumberOfTrackPoints threePoints) - 1)
            [(''gpx-0'', FILE, [ListFileItem ''gpx-0''])] threePointsState = Some s' \<and>
         files s' = files threePointsState"
    by (elim conjE impE) assumption+
  from t have k: "\<And>k. \<exists>s'. cropSelection k (k - 1) [(''gpx-0'', FILE, [ListFileItem ''gpx-0''])] threePointsState = Some s' \<and>
                  (map_of (files s') ''gpx-0'' = None \<longleftrightarrow> k \<le> 0 \<or> int (getNumberOfTrackPoints threePoints) \<le> k) \<and>
                  (0 < k \<and> k < int (getNumberOfTrackPoints threePoints) \<longrightarrow>
                     map_of (files s') ''gpx-0'' = Some (crop k (k - 1) None None threePoints)) \<and>
                  (\<forall>fid'. fid' \<noteq> ''gpx-0'' \<longrightarrow> map_of (files s') fid' = map_of (files threePointsState) fid')"
    by (elim conjE) (erule allE)
  from k [of 1] obtain s1 where
    "cropSelection 1 (1 - 1) [(''gpx-0'', FILE, [ListFileItem ''gpx-0''])] threePointsState = Some s1"
    "0 < (1::int) \<and> 1 < int (getNumberOfTrackPoints threePoints) \<longrightarrow>
       map_of (files s1) ''gpx-0'' = Some (crop 1 (1 - 1) None None threePoints)"
    by (elim exE conjE)
  then have b: "\<exists>s'. cropSelection 1 (1 - 1) [(''gpx-0'', FILE, [ListFileItem ''gpx-0''])] threePointsState = Some s' \<and>
         map_of (files s') ''gpx-0'' = Some (crop 1 (1 - 1) None None threePoints)"
    by (simp add: n_threePoints)
  from k [of 3] obtain s3 where
    "cropSelection 3 (3 - 1) [(''gpx-0'', FILE, [ListFileItem ''gpx-0''])] threePointsState = Some s3"
    "map_of (files s3) ''gpx-0'' = None \<longleftrightarrow> 3 \<le> (0::int) \<or> int (getNumberOfTrackPoints threePoints) \<le> 3"
    by (elim exE conjE)
  then have c: "\<exists>s'. cropSelection 3 (3 - 1) [(''gpx-0'', FILE, [ListFileItem ''gpx-0''])] threePointsState = Some s' \<and>
         map_of (files s') ''gpx-0'' = None"
    by (simp add: n_threePoints)
  from fl n a b c show ?thesis by (intro conjI)
qed


subsection \<open>Operations on an empty selection\<close>

lemma mergeSelection_callback_empty: "mergeSelection_callback blend mergeTraces [] S draft = Some draft"
  by (simp add: mergeSelection_callback_def merge_finish_def merge_blend_def)

lemma mergeSelection_empty:
  "mergeSelection blend mergeTraces [] s =
     Some (s\<lparr> patches := patches (storePatches [] [] s), patchIndex := patchIndex s + 1 \<rparr>)"
  unfolding mergeSelection_def
  by (rule applyGlobal_unchanged) (rule mergeSelection_callback_empty)

text \<open>
  Claim C8. With an empty selection \<open>cropSelection\<close> returns at its guard and the state is
  unchanged. \<open>mergeSelection\<close> and \<open>extractSelection\<close> have no such guard: with an empty
  selection they raise no exception and leave the documents unchanged, but they store an
  empty patch pair at \<open>cursor + 1\<close> and advance the cursor, which discards what could be
  redone.
\<close>

theorem empty_selection_merge_extract:
  "cropSelection startIndex endIndex [] s = Some s \<and>
   mergeSelection blend mergeTraces [] s =
     Some (s\<lparr> patches := patches (storePatches [] [] s), patchIndex := patchIndex s + 1 \<rparr>) \<and>
   extractSelection distance [] s =
     Some (s\<lparr> patches := patches (storePatches [] [] s), patchIndex := patchIndex s + 1 \<rparr>) \<and>
   table_get (patches (storePatches [] [] s)) (patchIndex s + 1) =
     Some \<lparr> patch = [], inversePatch = [], index = patchIndex s + 1 \<rparr> \<and>
   canRedo undoneEdit \<and>
   map_option canRedo (mergeSelection (@) False [] undoneEdit) = Some False \<and>
   map_option patchIndex (mergeSelection (@) False [] undoneEdit) = Some 0"
proof -
  have 1: "cropSelection startIndex endIndex [] s = Some s" by (simp add: cropSelection_def)
  note m = mergeSelection_empty
  have 2: "mergeSelection blend mergeTraces [] s =
     Some (s\<lparr> patches := patches (storePatches [] [] s), patchIndex := patchIndex s + 1 \<rparr>)"
    by (rule m)
  have 3: "extractSelection distance [] s =
     Some (s\<lparr> patches := patches (storePatches [] [] s), patchIndex := patchIndex s + 1 \<rparr>)"
    unfolding extractSelection_def
    by (rule applyGlobal_unchanged) simp
  have 4: "table_get (patches (storePatches [] [] s)) (patchIndex s + 1) =
     Some \<lparr> patch = [], inversePatch = [], index = patchIndex s + 1 \<rparr>"
    by (simp add: storePatches_get)
  have 5: "canRedo undoneEdit"
    by (simp add: canRedo_def undoneEdit_def patchMinMaxIndex_def table_keys_def)
  have 6: "map_option canRedo (mergeSelection (@) False [] undoneEdit) = Some False"
    by (simp add: m [of "(@)" False undoneEdit])
      (simp add: canRedo_def undoneEdit_def patchMinMaxIndex_def table_keys_def storePatches_def
        delete_above_def MAX_PATCHES_def Let_def)
  have 7: "map_option patchIndex (mergeSelection (@) False [] undoneEdit) = Some 0"
    by (simp add: m [of "(@)" False undoneEdit]) (simp add: undoneEdit_def)
  from 1 2 3 4 5 6 7 show ?thesis by (intro conjI)
qed


subsection \<open>File ids after a deletion\<close>

lemma getFileIds_1: "getFileIds (Suc 0) [] = [''gpx-0'']"
  by (simp add: getFileIds_def getFileIds_loop.simps gpx_id_def toString.simps digit_def)

text \<open>
  Claim C9 fails as stated: in one session the document \<open>docA\<close> is added and gets the id
  \<open>gpx-0\<close>, all files are deleted, and the different document \<open>docB\<close> is added and gets
  the id \<open>gpx-0\<close> again.
\<close>

theorem id_reused_counterexample:
  "map_option files (add docA initialState) = Some [(''gpx-0'', docA\<lparr> data_id := Some ''gpx-0'' \<rparr>)] \<and>
   map_option files (Option.bind (add docA initialState) deleteAllFiles) = Some [] \<and>
   map_option files (Option.bind (Option.bind (add docA initialState) deleteAllFiles) (add docB)) =
     Some [(''gpx-0'', docB\<lparr> data_id := Some ''gpx-0'' \<rparr>)] \<and>
   docA \<noteq> docB"
proof -
  have a: "add docA initialState =
     Some \<lparr> files = [(''gpx-0'', docA\<lparr> data_id := Some ''gpx-0'' \<rparr>)],
            patches = [(0, \<lparr> patch = [Add ''gpx-0'' (docA\<lparr> data_id := Some ''gpx-0'' \<rparr>)],
                           inversePatch = [Remove ''gpx-0''], index = 0 \<rparr>)],
            patchIndex = 0 \<rparr>"
    by (simp add: add_def docA_def getFileIds_1 initialState_def applyGlobal_def produceWithPatches_def
        finishDraft_def createDraft_def draft_set_def patchesOf_def commitFileStateChange_def
        getChangedFileIds_def Let_def storePatches_def delete_above_def patchMinMaxIndex_def
        table_keys_def MAX_PATCHES_def)
  have d: "deleteAllFiles \<lparr> files = [(''gpx-0'', docA\<lparr> data_id := Some ''gpx-0'' \<rparr>)],
            patches = [(0, \<lparr> patch = [Add ''gpx-0'' (docA\<lparr> data_id := Some ''gpx-0'' \<rparr>)],
                           inversePatch = [Remove ''gpx-0''], index = 0 \<rparr>)],
            patchIndex = 0 \<rparr> =
     Some \<lparr> files = [],
            patches = [(0, \<lparr> patch = [Add ''gpx-0'' (docA\<lparr> data_id := Some ''gpx-0'' \<rparr>)],
                           inversePatch = [Remove ''gpx-0''], index = 0 \<rparr>),
                       (1, \<lparr> patch = [Remove ''gpx-0''],
                           inversePatch = [Add ''gpx-0'' (docA\<lparr> data_id := Some ''gpx-0'' \<rparr>)], index = 1 \<rparr>)],
            patchIndex = 1 \<rparr>"
    by (simp add: deleteAllFiles_def applyGlobal_def produceWithPatches_def
        finishDraft_def createDraft_def draft_clear_def patchesOf_def commitFileStateChange_def
        getChangedFileIds_def Let_def storePatches_def delete_above_def patchMinMaxIndex_def
        table_keys_def MAX_PATCHES_def)
  have b: "map_option files (add docB \<lparr> files = [],
            patches = [(0, \<lparr> patch = [Add ''gpx-0'' (docA\<lparr> data_id := Some ''gpx-0'' \<rparr>)],
                           inversePatch = [Remove ''gpx-0''], index = 0 \<rparr>),
                       (1, \<lparr> patch = [Remove ''gpx-0''],
                           inversePatch = [Add ''gpx-0'' (docA\<lparr> data_id := Some ''gpx-0'' \<rparr>)], index = 1 \<rparr>)],
            patchIndex = 1 \<rparr>) = Some [(''gpx-0'', docB\<lparr> data_id := Some ''gpx-0'' \<rparr>)]"
    by (simp add: add_def docB_def getFileIds_1 applyGlobal_def produceWithPatches_def
        finishDraft_def createDraft_def draft_set_def patchesOf_def commitFileStateChange_def
        getChangedFileIds_def Let_def)
  have n: "docA \<noteq> docB" by (simp add: docA_def docB_def)
  show ?thesis unfolding a by (simp add: d b n)
qed

text \<open>
  Claim C9, as the code has it. \<open>getFileIds(n)\<close> returns \<open>n\<close> ids that are pairwise
  different and different from the id of every document that is observed when it is
  called; the id of a deleted document is free again.
\<close>

theorem getFileIds_distinct_unobserved:
  "length (getFileIds n observers) = n \<and> distinct (getFileIds n observers) \<and>
   set (getFileIds n observers) \<inter> set observers = {}"
  by (rule getFileIds_fresh)


section \<open>Statistics of an item\<close>

declare getStatisticsFor.simps [simp del]

lemma foldM_total:
  "(\<And>x b. x \<in> set xs \<Longrightarrow> \<exists>b'. g x b = Some b') \<Longrightarrow> \<exists>b'. foldM g xs b = Some b'"
proof (induction xs arbitrary: b)
  case Nil
  show ?case by simp
next
  case (Cons x xs)
  from Cons.prems [of x b] obtain b1 where 1: "g x b = Some b1" by auto
  from Cons.IH [of b1] Cons.prems obtain b2 where "foldM g xs b1 = Some b2" by auto
  with 1 show ?case by simp
qed

lemma getStatisticsFor_returns:
  "\<exists>st. getStatisticsFor getIdAtLevel mergeWith newStatistics T item = Some st"
proof (induction T)
  case (GPXStatisticsTree lvl stats)
  have sub: "\<exists>st. getStatisticsFor getIdAtLevel mergeWith newStatistics t item = Some st"
    if "nth_opt stats k = Some (Subtree t)" for k t
  proof -
    from that have "k < length stats" "stats ! k = Subtree t"
      by (auto simp: nth_opt_def split: if_splits)
    then have "Subtree t \<in> set stats" using nth_mem [of k stats] by simp
    moreover have "t \<in> set2_Child (Subtree t)" by simp
    ultimately show ?thesis by (rule GPXStatisticsTree.IH)
  qed
  have step: "\<exists>b'. (case nth_opt stats key of
                     None \<Rightarrow> None
                   | Some (Statistics c) \<Rightarrow> Some (mergeWith st c)
                   | Some (Subtree t) \<Rightarrow>
                       map_option (mergeWith st) (getStatisticsFor getIdAtLevel mergeWith newStatistics t item)) = Some b'"
    if "key \<in> set [0 ..< length stats]" for key st
  proof (cases "nth_opt stats key")
    case None
    with that show ?thesis by (simp add: nth_opt_def)
  next
    case (Some child)
    show ?thesis
    proof (cases child)
      case (Statistics c)
      with Some show ?thesis by simp
    next
      case (Subtree t)
      with Some sub [of key t] show ?thesis by auto
    qed
  qed
  have all: "\<exists>b'. foldM (\<lambda>key st.
                   case nth_opt stats key of
                     None \<Rightarrow> None
                   | Some (Statistics c) \<Rightarrow> Some (mergeWith st c)
                   | Some (Subtree t) \<Rightarrow>
                       map_option (mergeWith st) (getStatisticsFor getIdAtLevel mergeWith newStatistics t item))
                 [0 ..< length stats] newStatistics = Some b'"
    by (rule foldM_total) (rule step)
  show ?case
  proof (cases "getIdAtLevel item lvl")
    case None
    with all show ?thesis by (simp add: getStatisticsFor.simps)
  next
    case (Some i)
    show ?thesis
    proof (cases i)
      case Waypoints
      with Some all show ?thesis by (simp add: getStatisticsFor.simps)
    next
      case (Index n)
      show ?thesis
      proof (cases "nth_opt stats n")
        case None
        with Some Index show ?thesis by (simp add: getStatisticsFor.simps)
      next
        case c: (Some child)
        show ?thesis
        proof (cases child)
          case (Statistics c')
          with Some Index c show ?thesis by (simp add: getStatisticsFor.simps)
        next
          case (Subtree t)
          with Some Index c sub [of n t] show ?thesis by (auto simp: getStatisticsFor.simps)
        qed
      qed
    qed
  qed
qed

lemma foldM_map: "foldM g (map f xs) b = foldM (\<lambda>x. g (f x)) xs b"
  by (induction xs arbitrary: b) (simp_all split: option.split)

lemma foldM_keys:
  "foldM (\<lambda>key st. case nth_opt xs key of None \<Rightarrow> None | Some c \<Rightarrow> h c st) [0 ..< length xs] b =
   foldM h xs b"
proof -
  have "foldM h xs b = foldM h (map (\<lambda>k. xs ! k) [0 ..< length xs]) b"
    by (simp add: map_nth)
  also have "\<dots> = foldM (\<lambda>k. h (xs ! k)) [0 ..< length xs] b"
    by (rule foldM_map)
  also have "\<dots> = foldM (\<lambda>key st. case nth_opt xs key of None \<Rightarrow> None | Some c \<Rightarrow> h c st)
                     [0 ..< length xs] b"
    by (rule foldM_cong) (simp_all add: nth_opt_def)
  finally show ?thesis by simp
qed

lemma getStatisticsFor_all:
  assumes "getIdAtLevel item lvl = None \<or> getIdAtLevel item lvl = Some Waypoints"
  shows "getStatisticsFor getIdAtLevel mergeWith newStatistics (GPXStatisticsTree lvl stats) item =
         foldM (\<lambda>child st. map_option (mergeWith st) (childStatistics getIdAtLevel mergeWith newStatistics item child))
               stats newStatistics"
proof -
  have e: "(\<lambda>key st. case nth_opt stats key of
                     None \<Rightarrow> None
                   | Some (Statistics c) \<Rightarrow> Some (mergeWith st c)
                   | Some (Subtree t) \<Rightarrow>
                       map_option (mergeWith st) (getStatisticsFor getIdAtLevel mergeWith newStatistics t item)) =
           (\<lambda>key st. case nth_opt stats key of None \<Rightarrow> None
               | Some c \<Rightarrow> map_option (mergeWith st) (childStatistics getIdAtLevel mergeWith newStatistics item c))"
    by (auto simp: fun_eq_iff childStatistics_def split: option.split Child.split)
  have "foldM (\<lambda>key st. case nth_opt stats key of
                     None \<Rightarrow> None
                   | Some (Statistics c) \<Rightarrow> Some (mergeWith st c)
                   | Some (Subtree t) \<Rightarrow>
                       map_option (mergeWith st) (getStatisticsFor getIdAtLevel mergeWith newStatistics t item))
                 [0 ..< length stats] newStatistics =
        foldM (\<lambda>child st. map_option (mergeWith st) (childStatistics getIdAtLevel mergeWith newStatistics item child))
               stats newStatistics"
    unfolding e
    using foldM_keys [where xs = stats and b = newStatistics
        and h = "\<lambda>c st. map_option (mergeWith st) (childStatistics getIdAtLevel mergeWith newStatistics item c)"]
    by simp
  with assms show ?thesis by (auto simp: getStatisticsFor.simps)
qed

lemma foldM_the:
  "(\<forall>x\<in>set xs. \<exists>c. cs x = Some c) \<Longrightarrow>
     foldM (\<lambda>x st. map_option (mw st) (cs x)) xs b = Some (fold (\<lambda>x st. mw st (the (cs x))) xs b)"
  by (induction xs arbitrary: b) auto

text \<open>
  Claim C10. \<open>getStatisticsFor\<close> returns statistics for every tree and every item, it
  does not raise. When the id of the item at the level of the node is \<open>undefined\<close> or
  \<open>'waypoints'\<close>, every child of the node has statistics for the item and the result is
  their merge, in the order of the keys, into the new statistics; when the id is an index
  that is not a key of the node, the result is the new, empty statistics.
\<close>

theorem getStatisticsFor_total:
  "(\<exists>st. getStatisticsFor getIdAtLevel mergeWith newStatistics T item = Some st) \<and>
   (getIdAtLevel item (level T) = None \<or> getIdAtLevel item (level T) = Some Waypoints \<longrightarrow>
      (\<forall>child \<in> set (statistics T). \<exists>c. childStatistics getIdAtLevel mergeWith newStatistics item child = Some c) \<and>
      getStatisticsFor getIdAtLevel mergeWith newStatistics T item =
        Some (fold (\<lambda>child st. mergeWith st (the (childStatistics getIdAtLevel mergeWith newStatistics item child)))
                   (statistics T) newStatistics)) \<and>
   (\<forall>i. getIdAtLevel item (level T) = Some (Index i) \<and> length (statistics T) \<le> i \<longrightarrow>
      getStatisticsFor getIdAtLevel mergeWith newStatistics T item = Some newStatistics)"
proof -
  obtain lvl stats where T: "T = GPXStatisticsTree lvl stats" by (cases T)
  have 1: "\<exists>st. getStatisticsFor getIdAtLevel mergeWith newStatistics T item = Some st"
    by (rule getStatisticsFor_returns)
  have 3: "\<exists>c. childStatistics getIdAtLevel mergeWith newStatistics item child = Some c" for child
    by (cases child) (simp_all add: childStatistics_def getStatisticsFor_returns)
  have 2: "getStatisticsFor getIdAtLevel mergeWith newStatistics T item =
        Some (fold (\<lambda>child st. mergeWith st (the (childStatistics getIdAtLevel mergeWith newStatistics item child)))
                   (statistics T) newStatistics)"
    if "getIdAtLevel item (level T) = None \<or> getIdAtLevel item (level T) = Some Waypoints"
  proof -
    have "getStatisticsFor getIdAtLevel mergeWith newStatistics T item =
        foldM (\<lambda>child st. map_option (mergeWith st) (childStatistics getIdAtLevel mergeWith newStatistics item child))
              (statistics T) newStatistics"
      using that unfolding T by (simp add: getStatisticsFor_all)
    also have "\<dots> = Some (fold (\<lambda>child st. mergeWith st (the (childStatistics getIdAtLevel mergeWith newStatistics item child)))
                   (statistics T) newStatistics)"
      by (rule foldM_the) (simp add: 3)
    finally show ?thesis .
  qed
  have 4: "getStatisticsFor getIdAtLevel mergeWith newStatistics T item = Some newStatistics"
    if "getIdAtLevel item (level T) = Some (Index i)" "length (statistics T) \<le> i" for i
    using that unfolding T by (simp add: getStatisticsFor.simps nth_opt_def)
  from 1 2 3 4 show ?thesis by blast
qed

theorem getStatisticsFor_total_witness:
  "getStatisticsFor exampleIds (+) 0 exampleTree (ListFileItem ''gpx-0'') = Some 10 \<and>
   getStatisticsFor exampleIds (+) 0 exampleTree (ListWaypointsItem ''gpx-0'') = Some 10 \<and>
   getStatisticsFor exampleIds (+) 0 exampleTree (ListTrackItem ''gpx-0'' 2) = Some 0"
proof -
  note t = getStatisticsFor_total [of exampleIds "(+)" 0 exampleTree]
  have s: "childStatistics exampleIds (+) (0::nat) item (Subtree (GPXStatisticsTree TRACK [Statistics 2, Statistics 3])) = Some 5"
          "childStatistics exampleIds (+) (0::nat) item (Subtree (GPXStatisticsTree TRACK [Statistics 5])) = Some 5"
    if "exampleIds item TRACK = None" for item
    using that by (simp_all add: childStatistics_def getStatisticsFor.simps nth_opt_def upt_conv_Cons)
  have 1: "getStatisticsFor exampleIds (+) 0 exampleTree (ListFileItem ''gpx-0'') = Some 10"
    using t [of "ListFileItem ''gpx-0''"] by (simp add: exampleTree_def s)
  have 2: "getStatisticsFor exampleIds (+) 0 exampleTree (ListWaypointsItem ''gpx-0'') = Some 10"
    using t [of "ListWaypointsItem ''gpx-0''"] by (simp add: exampleTree_def s)
  have 4: "getStatisticsFor exampleIds (+) 0 exampleTree (ListTrackItem ''gpx-0'' 2) = Some 0"
    using t [of "ListTrackItem ''gpx-0'' 2"] by (simp add: exampleTree_def)
  from 1 2 4 show ?thesis by (intro conjI)
qed


section \<open>The target of a merge\<close>








lemma take_nths:
  assumes a: "a \<le> length xs" and D: "\<forall>d\<in>D. a \<le> d"
  shows "take a (nths xs (- D)) = take a xs"
proof -
  have l: "length (take a xs) = a" using a by simp
  have 1: "nths (take a xs) (- D) = take a xs"
    by (rule nths_all) (use D l in auto)
  have "nths (take a xs @ drop a xs) (- D) = take a xs @ nths (drop a xs) {j. j + a \<in> - D}"
    unfolding nths_append l 1 ..
  then have "take a (nths xs (- D)) = take a (take a xs @ nths (drop a xs) {j. j + a \<in> - D})"
    by simp
  also have "\<dots> = take a xs" using l by simp
  finally show ?thesis .
qed

lemma nth_nths_below:
  assumes a: "a < length xs" and D: "\<forall>d\<in>D. a < d"
  shows "a < length (nths xs (- D)) \<and> nths xs (- D) ! a = xs ! a"
proof -
  have t: "take (Suc a) (nths xs (- D)) = take (Suc a) xs"
    by (rule take_nths) (use a D in auto)
  have "length (take (Suc a) (nths xs (- D))) = Suc a" unfolding t using a by simp
  then have l: "a < length (nths xs (- D))" by simp
  have "nths xs (- D) ! a = take (Suc a) (nths xs (- D)) ! a" by simp
  also have "\<dots> = xs ! a" unfolding t by simp
  finally show ?thesis using l by simp
qed







lemma enumerate_map_nth:
  "j < length ts \<Longrightarrow> map h (enumerate 0 ts) ! j = h (j, ts ! j)"
  by (simp add: nth_enumerate_eq)








text \<open>
  With tracks selected in two files, the last item of each file is the target in its
  turn: the track of the first file is emptied and stays, and its segments go to the
  target of the last file.
\<close>

lemma mergeSelection_tracks_two_files:
  "map_option files (mergeSelection (@) False
       [(''gpx-0'', TRACK, [ListTrackItem ''gpx-0'' 1, ListTrackItem ''gpx-0'' 0]),
        (''gpx-1'', TRACK, [ListTrackItem ''gpx-1'' 1, ListTrackItem ''gpx-1'' 0])] twoFilesState) =
     Some [(''gpx-0'',
            \<lparr> data_id = Some ''gpx-0'', metadata_name = Some ''a'',
              trk = [\<lparr> name = None, trkseg = [] \<rparr>], wpt = [1] \<rparr>),
           (''gpx-1'',
            \<lparr> data_id = Some ''gpx-1'', metadata_name = Some ''b'',
              trk = [\<lparr> name = None,
                      trkseg = [\<lparr> trkpt = [10] \<rparr>, \<lparr> trkpt = [12] \<rparr>, \<lparr> trkpt = [0] \<rparr>, \<lparr> trkpt = [2] \<rparr>] \<rparr>],
              wpt = [11] \<rparr>)]"
proof -
  have cb: "mergeSelection_callback (@) False
       [(''gpx-0'', TRACK, [ListTrackItem ''gpx-0'' 1, ListTrackItem ''gpx-0'' 0]),
        (''gpx-1'', TRACK, [ListTrackItem ''gpx-1'' 1, ListTrackItem ''gpx-1'' 0])] (files twoFilesState)
       (createDraft (files twoFilesState)) =
     Some \<lparr> base = files twoFilesState,
            copy = [(''gpx-0'',
                     \<lparr> data_id = Some ''gpx-0'', metadata_name = Some ''a'',
                       trk = [\<lparr> name = None, trkseg = [] \<rparr>], wpt = [1] \<rparr>),
                    (''gpx-1'',
                     \<lparr> data_id = Some ''gpx-1'', metadata_name = Some ''b'',
                       trk = [\<lparr> name = None,
                               trkseg = [\<lparr> trkpt = [10] \<rparr>, \<lparr> trkpt = [12] \<rparr>, \<lparr> trkpt = [0] \<rparr>, \<lparr> trkpt = [2] \<rparr>] \<rparr>],
                       wpt = [11] \<rparr>)],
            assigned = [(''gpx-0'', True), (''gpx-1'', True)] \<rparr>"
    by (simp add: mergeSelection_callback_def merge_step_def merge_finish_def draft_get_def draft_mutate_def
        twoFilesState_def twoTracks_def otherTracks_def createDraft_def Let_def nth_opt_def draft_update_def
        splice1_def replaceTrackSegments_def Track_replaceTrackSegments_def replaceRange_def)
  show ?thesis
    unfolding mergeSelection_def applyGlobal_def produceWithPatches_def cb
    by (simp add: twoFilesState_def twoTracks_def otherTracks_def finishDraft_def
        patchesOf_def commitFileStateChange_def getChangedFileIds_def Let_def storePatches_def)
qed

end
